theory Spec2Isabelle
  imports Main
begin

section \<open>Strings and character tables\<close>

text \<open>
  A Python \<open>str\<close> is a sequence of Unicode code points, so a string is modelled as a list
  of natural numbers.  \<open>str\<close> turns an ASCII literal into such a list; the accented
  letters of the Hungarian templates are written as their code points.
\<close>

type_synonym pystr = "nat list"

definition str :: "string \<Rightarrow> pystr" where
  "str s = map of_char s"

text \<open>
  The tables of the Unicode character database that the Python runtime consults and that
  are not part of the repository.  They are taken as a parameter and are only ever asked
  about code points from 128 upwards; on ASCII the functions below are written out.
  \<^item> \<open>ucd_upper c\<close>: the full upper-case mapping of one code point (\<open>str.upper\<close> maps
    code point by code point, one code point may become several);
  \<^item> \<open>ucd_lower s\<close>: \<open>str.lower\<close> of a string that has a non-ASCII code point (the
    lower-case mapping of capital sigma depends on its position, so it is a function
    of the whole string);
  \<^item> \<open>ucd_decimal c\<close>: \<open>c\<close> is a decimal digit (category Nd), what \<open>\\d\<close> accepts;
  \<^item> \<open>ucd_alnum c\<close>: \<open>c\<close> is alphanumeric, what \<open>\\w\<close> and \<open>\\b\<close> look at.
\<close>

record ucd =
  ucd_upper :: "nat \<Rightarrow> nat list"
  ucd_lower :: "nat list \<Rightarrow> nat list"
  ucd_decimal :: "nat \<Rightarrow> bool"
  ucd_alnum :: "nat \<Rightarrow> bool"

definition upper_cp :: "ucd \<Rightarrow> nat \<Rightarrow> nat list" where
  "upper_cp U c =
     (if 97 \<le> c \<and> c \<le> 122 then [c - 32] else if c < 128 then [c] else ucd_upper U c)"

definition py_upper :: "ucd \<Rightarrow> pystr \<Rightarrow> pystr" where
  "py_upper U s = concat (map (upper_cp U) s)"

definition lower_ascii :: "nat \<Rightarrow> nat" where
  "lower_ascii c = (if 65 \<le> c \<and> c \<le> 90 then c + 32 else c)"

definition py_lower :: "ucd \<Rightarrow> pystr \<Rightarrow> pystr" where
  "py_lower U s = (if list_all (\<lambda>c. c < 128) s then map lower_ascii s else ucd_lower U s)"

text \<open>
  \<open>str.isspace\<close> of one code point, which is also what \<open>\\s\<close> accepts in a \<open>str\<close>
  pattern and what \<open>str.strip()\<close> removes: the 29 white-space code points of CPython.
\<close>

definition is_space :: "nat \<Rightarrow> bool" where
  "is_space c \<longleftrightarrow>
     (9 \<le> c \<and> c \<le> 13) \<or> (28 \<le> c \<and> c \<le> 32) \<or> c = 133 \<or> c = 160 \<or> c = 5760 \<or>
     (8192 \<le> c \<and> c \<le> 8202) \<or> c = 8232 \<or> c = 8233 \<or> c = 8239 \<or> c = 8287 \<or> c = 12288"

definition is_digit :: "ucd \<Rightarrow> nat \<Rightarrow> bool" where
  "is_digit U c = (if c < 128 then 48 \<le> c \<and> c \<le> 57 else ucd_decimal U c)"

definition is_word :: "ucd \<Rightarrow> nat \<Rightarrow> bool" where
  "is_word U c =
     (if c < 128
      then (48 \<le> c \<and> c \<le> 57) \<or> (65 \<le> c \<and> c \<le> 90) \<or> (97 \<le> c \<and> c \<le> 122) \<or> c = 95
      else ucd_alnum U c)"

text \<open>\<open>str.strip\<close>: the characters of a class are removed from both ends.\<close>

definition strip_where :: "(nat \<Rightarrow> bool) \<Rightarrow> pystr \<Rightarrow> pystr" where
  "strip_where p s = rev (dropWhile p (rev (dropWhile p s)))"

definition py_strip :: "pystr \<Rightarrow> pystr" where
  "py_strip s = strip_where is_space s"

definition startswith :: "pystr \<Rightarrow> pystr \<Rightarrow> bool" where
  "startswith s p = (take (length p) s = p)"

section \<open>The regular expressions of module \<open>re\<close>\<close>

text \<open>
  The patterns of the program are kept as syntax trees and run by a backtracking matcher
  with the priorities of \<open>re\<close>: a greedy repetition tries the longest run first, a lazy
  one the shortest, an optional part is tried before it is skipped, and the first
  alternative that lets the rest of the pattern match wins.  Repetition is only needed
  over a single character class (\<open>\\s+\<close>, \<open>.+?\<close>, \<open>\\d{9,30}\<close>, \<open>[A-Z0-9\\-]{6,40}\<close>).
\<close>

datatype regex =
    Eps
  | Cls "nat \<Rightarrow> bool"
  | Cat regex regex
  | Opt regex
  | Rep "nat \<Rightarrow> bool" nat "nat option"
  | RepLazy "nat \<Rightarrow> bool" nat "nat option"
  | Ahead regex
  | Bound "nat \<Rightarrow> bool"
  | Grp regex

type_synonym outcome = "pystr option \<times> pystr"

fun dec :: "nat option \<Rightarrow> nat option" where
  "dec None = None"
| "dec (Some n) = Some (n - 1)"

fun rep_greedy ::
  "(nat \<Rightarrow> bool) \<Rightarrow> nat \<Rightarrow> nat option \<Rightarrow> nat option \<Rightarrow> pystr \<Rightarrow>
   (nat option \<Rightarrow> pystr \<Rightarrow> outcome option) \<Rightarrow> outcome option" where
  "rep_greedy p lo hi prev [] k = (if lo = 0 then k prev [] else None)"
| "rep_greedy p lo hi prev (c # cs) k =
     (if p c \<and> hi \<noteq> Some 0
      then (case rep_greedy p (lo - 1) (dec hi) (Some c) cs k of
              Some r \<Rightarrow> Some r
            | None \<Rightarrow> if lo = 0 then k prev (c # cs) else None)
      else if lo = 0 then k prev (c # cs) else None)"

fun rep_lazy ::
  "(nat \<Rightarrow> bool) \<Rightarrow> nat \<Rightarrow> nat option \<Rightarrow> nat option \<Rightarrow> pystr \<Rightarrow>
   (nat option \<Rightarrow> pystr \<Rightarrow> outcome option) \<Rightarrow> outcome option" where
  "rep_lazy p lo hi prev [] k = (if lo = 0 then k prev [] else None)"
| "rep_lazy p lo hi prev (c # cs) k =
     (if lo = 0
      then (case k prev (c # cs) of
              Some r \<Rightarrow> Some r
            | None \<Rightarrow> if p c \<and> hi \<noteq> Some 0 then rep_lazy p 0 (dec hi) (Some c) cs k else None)
      else if p c \<and> hi \<noteq> Some 0 then rep_lazy p (lo - 1) (dec hi) (Some c) cs k else None)"

text \<open>\<open>\\b\<close>: exactly one of the characters before and after the position is a word character.\<close>

definition at_boundary :: "(nat \<Rightarrow> bool) \<Rightarrow> nat option \<Rightarrow> pystr \<Rightarrow> bool" where
  "at_boundary w prev s =
     ((case prev of None \<Rightarrow> False | Some c \<Rightarrow> w c) \<noteq> (case s of [] \<Rightarrow> False | c # _ \<Rightarrow> w c))"

text \<open>
  \<open>rmatch r prev s g k\<close> matches \<open>r\<close> at a position of the text: \<open>prev\<close> is the character
  before the position, \<open>s\<close> the text from the position on, \<open>g\<close> the text captured by
  group 1 so far, and \<open>k\<close> the rest of the match.  \<open>None\<close> is failure, after which the
  caller backtracks.
\<close>

fun rmatch ::
  "regex \<Rightarrow> nat option \<Rightarrow> pystr \<Rightarrow> pystr option \<Rightarrow>
   (nat option \<Rightarrow> pystr \<Rightarrow> pystr option \<Rightarrow> outcome option) \<Rightarrow> outcome option" where
  "rmatch Eps prev s g k = k prev s g"
| "rmatch (Cls p) prev s g k =
     (case s of [] \<Rightarrow> None | c # cs \<Rightarrow> if p c then k (Some c) cs g else None)"
| "rmatch (Cat a b) prev s g k =
     rmatch a prev s g (\<lambda>prev' s' g'. rmatch b prev' s' g' k)"
| "rmatch (Opt a) prev s g k =
     (case rmatch a prev s g k of Some r \<Rightarrow> Some r | None \<Rightarrow> k prev s g)"
| "rmatch (Rep p lo hi) prev s g k = rep_greedy p lo hi prev s (\<lambda>prev' s'. k prev' s' g)"
| "rmatch (RepLazy p lo hi) prev s g k = rep_lazy p lo hi prev s (\<lambda>prev' s'. k prev' s' g)"
| "rmatch (Ahead a) prev s g k =
     (case rmatch a prev s g (\<lambda>prev' s' g'. Some (g', s')) of
        None \<Rightarrow> None
      | Some (g', s') \<Rightarrow> k prev s g')"
| "rmatch (Bound w) prev s g k = (if at_boundary w prev s then k prev s g else None)"
| "rmatch (Grp a) prev s g k =
     rmatch a prev s g (\<lambda>prev' s' g'. k prev' s' (Some (take (length s - length s') s)))"

definition match_here :: "regex \<Rightarrow> nat option \<Rightarrow> pystr \<Rightarrow> (pystr \<times> pystr option) option" where
  "match_here r prev s =
     (case rmatch r prev s None (\<lambda>prev' s' g'. Some (g', s')) of
        None \<Rightarrow> None
      | Some (g', s') \<Rightarrow> Some (take (length s - length s') s, g'))"

text \<open>
  \<open>Pattern.search\<close>: the match at the leftmost position where the pattern matches, as
  the pair of the whole match and of group 1.
\<close>

fun search_from :: "regex \<Rightarrow> nat option \<Rightarrow> pystr \<Rightarrow> (pystr \<times> pystr option) option" where
  "search_from r prev [] = match_here r prev []"
| "search_from r prev (c # cs) =
     (case match_here r prev (c # cs) of
        Some m \<Rightarrow> Some m
      | None \<Rightarrow> search_from r (Some c) cs)"

definition re_search :: "regex \<Rightarrow> pystr \<Rightarrow> (pystr \<times> pystr option) option" where
  "re_search r s = search_from r None s"

text \<open>
  A literal character of a pattern compiled with \<open>re.IGNORECASE\<close> accepts the code points
  listed by \<open>ic_class\<close>: both cases of the letter, and for \<open>i\<close>, \<open>s\<close> and \<open>k\<close> also the
  dotted and dotless i, the long s and the Kelvin sign.  The table covers the characters
  that occur in the patterns of this program.
\<close>

definition ic_class :: "nat \<Rightarrow> nat list" where
  "ic_class l =
     (if l = 73 \<or> l = 105 then [73, 105, 304, 305]
      else if l = 83 \<or> l = 115 then [83, 115, 383]
      else if l = 75 \<or> l = 107 then [75, 107, 8490]
      else if 65 \<le> l \<and> l \<le> 90 then [l, l + 32]
      else if 97 \<le> l \<and> l \<le> 122 then [l - 32, l]
      else if l = 225 \<or> l = 233 \<or> l = 237 \<or> l = 243 \<or> l = 250 \<or> l = 252 then [l - 32, l]
      else if l = 337 then [336, 337]
      else [l])"

definition ic :: "nat list \<Rightarrow> nat \<Rightarrow> bool" where
  "ic ls c = (c \<in> set (concat (map ic_class ls)))"

definition lit :: "pystr \<Rightarrow> regex" where
  "lit ls = foldr (\<lambda>l r. Cat (Cls (ic [l])) r) ls Eps"

definition cats :: "regex list \<Rightarrow> regex" where
  "cats rs = foldr Cat rs Eps"

text \<open>
  \<open>Pattern.findall\<close>: the matches from left to right, each search starting where the
  previous match ended.  \<open>skip\<close> counts the characters of the last match that are still
  to be passed.  An item of the result is group 1 when the pattern has a group (the empty
  string when the group took no part) and the whole match otherwise.
\<close>

fun ngroups :: "regex \<Rightarrow> nat" where
  "ngroups (Grp a) = Suc (ngroups a)"
| "ngroups (Cat a b) = ngroups a + ngroups b"
| "ngroups (Opt a) = ngroups a"
| "ngroups (Ahead a) = ngroups a"
| "ngroups _ = 0"

definition item :: "regex \<Rightarrow> pystr \<times> pystr option \<Rightarrow> pystr" where
  "item r m =
     (if ngroups r = 0 then fst m else (case snd m of None \<Rightarrow> [] | Some g \<Rightarrow> g))"

fun findall_from :: "regex \<Rightarrow> nat \<Rightarrow> nat option \<Rightarrow> pystr \<Rightarrow> pystr list" where
  "findall_from r skip prev [] =
     (case match_here r prev [] of None \<Rightarrow> [] | Some m \<Rightarrow> [item r m])"
| "findall_from r skip prev (c # cs) =
     (if 0 < skip then findall_from r (skip - 1) (Some c) cs
      else case match_here r prev (c # cs) of
             None \<Rightarrow> findall_from r 0 (Some c) cs
           | Some m \<Rightarrow> item r m # findall_from r (length (fst m) - 1) (Some c) cs)"

definition findall :: "regex \<Rightarrow> pystr \<Rightarrow> pystr list" where
  "findall r s = findall_from r 0 None s"

text \<open>
  \<open>re.sub(pattern, repl, s)\<close> with a constant replacement: every match, found as by
  \<open>findall\<close>, is replaced.  None of the patterns this program substitutes matches the
  empty string.
\<close>

fun sub_from :: "regex \<Rightarrow> pystr \<Rightarrow> nat \<Rightarrow> nat option \<Rightarrow> pystr \<Rightarrow> pystr" where
  "sub_from r repl skip prev [] =
     (case match_here r prev [] of None \<Rightarrow> [] | Some m \<Rightarrow> repl)"
| "sub_from r repl skip prev (c # cs) =
     (if 0 < skip then sub_from r repl (skip - 1) (Some c) cs
      else case match_here r prev (c # cs) of
             None \<Rightarrow> c # sub_from r repl 0 (Some c) cs
           | Some m \<Rightarrow>
               if fst m = [] then repl @ c # sub_from r repl 0 (Some c) cs
               else repl @ sub_from r repl (length (fst m) - 1) (Some c) cs)"

definition re_sub :: "regex \<Rightarrow> pystr \<Rightarrow> pystr \<Rightarrow> pystr" where
  "re_sub r repl s = sub_from r repl 0 None s"

section \<open>Field extraction (\<open>step3_extract_company_invoice.py\<close>)\<close>

datatype error = AttributeError

text \<open>\<open>RE_GREET = Tisztelt\\s+(?P<company>.+?)\\s*!\<close> with \<open>IGNORECASE | DOTALL\<close>.\<close>

definition RE_GREET :: regex where
  "RE_GREET = cats [lit (str ''Tisztelt''), Rep is_space 1 None,
                    Grp (RepLazy (\<lambda>c. True) 1 None), Rep is_space 0 None, lit (str ''!'')]"

text \<open>
  \<open>RE_INVOICE = kUldjUk\\s+a\\s+(\\d{9,30})\\s+szAmU\\s+elektronikus\\s+szAmlAjAt\<close> with
  \<open>IGNORECASE\<close>, where the capitals stand for the accented letters of the source:
  u-diaeresis (code point 252) in the first word, a-acute (225) and u-acute (250) in
  the others.
\<close>

definition RE_INVOICE :: "ucd \<Rightarrow> regex" where
  "RE_INVOICE U =
     cats [lit (str ''k'' @ [252] @ str ''ldj'' @ [252] @ str ''k''), Rep is_space 1 None,
           lit (str ''a''), Rep is_space 1 None,
           Grp (Rep (is_digit U) 9 (Some 30)), Rep is_space 1 None,
           lit (str ''sz'' @ [225] @ str ''m'' @ [250]), Rep is_space 1 None,
           lit (str ''elektronikus''), Rep is_space 1 None,
           lit (str ''sz'' @ [225] @ str ''ml'' @ [225] @ str ''j'' @ [225] @ str ''t'')]"

text \<open>
  \<open>m.group(...).strip()\<close>: a group that took no part in the match is \<open>None\<close> in
  Python, and \<open>.strip()\<close> on it raises.
\<close>

definition group_strip :: "pystr \<times> pystr option \<Rightarrow> error + pystr option" where
  "group_strip m = (case snd m of None \<Rightarrow> Inl AttributeError | Some c \<Rightarrow> Inr (Some (py_strip c)))"

definition extract_company :: "pystr \<Rightarrow> error + pystr option" where
  "extract_company body =
     (if body = [] then Inr None
      else case re_search RE_GREET body of
             None \<Rightarrow> Inr None
           | Some m \<Rightarrow> group_strip m)"

definition extract_invoice :: "ucd \<Rightarrow> pystr \<Rightarrow> error + pystr option" where
  "extract_invoice U body =
     (if body = [] then Inr None
      else case re_search (RE_INVOICE U) body of
             None \<Rightarrow> Inr None
           | Some m \<Rightarrow> group_strip m)"

section \<open>The POD locator (\<open>step4_pdf_pod.py\<close>)\<close>

text \<open>
  \<open>LABEL = (?i)m[Ee]r[Oo]?(?:si)?\\s*pont\\s+azonos[iI]t[Oo](?:ja)?\\s*:?\\s*\<close>, where the
  capitals in the classes stand for the accented letters of the source: e-acute (233),
  o-double-acute (337), i-acute (237) and o-acute (243);
  \<open>IDCH = [A-Z0-9\\-]\<close>, which under \<open>IGNORECASE\<close> also accepts the small letters and
  the four code points 304, 305, 383 and 8490.
\<close>

definition LABEL :: regex where
  "LABEL = cats [lit (str ''m''), Cls (ic [233, 101]), lit (str ''r''), Opt (Cls (ic [337, 111])),
                 Opt (lit (str ''si'')), Rep is_space 0 None, lit (str ''pont''),
                 Rep is_space 1 None, lit (str ''azonos''), Cls (ic [105, 237]), lit (str ''t''),
                 Cls (ic [243, 111]), Opt (lit (str ''ja'')), Rep is_space 0 None,
                 Opt (lit (str '':'')), Rep is_space 0 None]"

definition ALNUM :: "nat \<Rightarrow> bool" where
  "ALNUM c \<longleftrightarrow> (65 \<le> c \<and> c \<le> 90) \<or> (97 \<le> c \<and> c \<le> 122) \<or> (48 \<le> c \<and> c \<le> 57) \<or>
             c = 304 \<or> c = 305 \<or> c = 383 \<or> c = 8490"

definition IDCH :: "nat \<Rightarrow> bool" where
  "IDCH c \<longleftrightarrow> ALNUM c \<or> c = 45"

definition has_digit :: "ucd \<Rightarrow> regex" where
  "has_digit U = Ahead (Cat (Rep IDCH 0 None) (Cls (is_digit U)))"

definition has_hyphen :: regex where
  "has_hyphen = Ahead (Cat (Rep IDCH 0 None) (lit (str ''-'')))"

text \<open>
  The four patterns of \<open>PATTERNS\<close>, in their order.  The two tokens are
  \<open>HU(?=IDCH*\\d)(?=IDCH*-)IDCH{6,40}[A-Z0-9]\<close> and \<open>39(?=IDCH*\\d)IDCH{6,40}[A-Z0-9]\<close>;
  patterns 1 and 2 are \<open>LABEL(token)\<close>, patterns 3 and 4 are \<open>\\btoken\\b\<close>.
\<close>

definition HU_BODY :: "ucd \<Rightarrow> regex" where
  "HU_BODY U =
     Cat (lit (str ''HU'')) (cats [has_digit U, has_hyphen, Rep IDCH 6 (Some 40), Cls ALNUM])"

definition GAS_BODY :: "ucd \<Rightarrow> regex" where
  "GAS_BODY U = Cat (lit (str ''39'')) (cats [has_digit U, Rep IDCH 6 (Some 40), Cls ALNUM])"

definition AFTER_LABEL_HU :: "ucd \<Rightarrow> regex" where
  "AFTER_LABEL_HU U = Cat LABEL (Grp (HU_BODY U))"

definition AFTER_LABEL_39 :: "ucd \<Rightarrow> regex" where
  "AFTER_LABEL_39 U = Cat LABEL (Grp (GAS_BODY U))"

definition ANYWHERE_HU :: "ucd \<Rightarrow> regex" where
  "ANYWHERE_HU U = Cat (Bound (is_word U)) (Cat (HU_BODY U) (Bound (is_word U)))"

definition ANYWHERE_39 :: "ucd \<Rightarrow> regex" where
  "ANYWHERE_39 U = Cat (Bound (is_word U)) (Cat (GAS_BODY U) (Bound (is_word U)))"

definition PATTERNS :: "ucd \<Rightarrow> regex list" where
  "PATTERNS U = [AFTER_LABEL_HU U, AFTER_LABEL_39 U, ANYWHERE_HU U, ANYWHERE_39 U]"

definition is_hyphen :: "nat \<Rightarrow> bool" where
  "is_hyphen c \<longleftrightarrow> c = 45"

definition strip_hyphens :: "pystr \<Rightarrow> pystr" where
  "strip_hyphens s = strip_where is_hyphen s"

definition normalize_pod :: "ucd \<Rightarrow> pystr \<Rightarrow> pystr" where
  "normalize_pod U s =
     strip_hyphens
       (re_sub (Rep is_hyphen 2 None) (str ''-'')
          (re_sub (Rep is_space 1 None) [] (py_upper U s)))"

fun try_patterns :: "ucd \<Rightarrow> regex list \<Rightarrow> pystr \<Rightarrow> pystr option" where
  "try_patterns U [] text = None"
| "try_patterns U (pat # pats) text =
     (case findall pat text of
        [] \<Rightarrow> try_patterns U pats text
      | m # ms \<Rightarrow>
          (let pod = normalize_pod U m
           in if startswith pod (str ''HU'') \<or> startswith pod (str ''39'') then Some pod
              else try_patterns U pats text))"

definition find_pod_in_text :: "ucd \<Rightarrow> pystr \<Rightarrow> pystr option" where
  "find_pod_in_text U text = (if text = [] then None else try_patterns U (PATTERNS U) text)"

text \<open>
  The PDF is the list of the texts of its pages (\<open>page.get_text()\<close> of PyMuPDF, which is
  outside the program).  \<open>if pod:\<close> holds for a result that is neither \<open>None\<close> nor empty.
\<close>

fun truthy :: "pystr option \<Rightarrow> bool" where
  "truthy None = False"
| "truthy (Some s) = (s \<noteq> [])"

fun scan_pages :: "ucd \<Rightarrow> pystr list \<Rightarrow> pystr option" where
  "scan_pages U [] = None"
| "scan_pages U (txt # rest) =
     (let pod = find_pod_in_text U txt in if truthy pod then pod else scan_pages U rest)"

definition page_two :: "ucd \<Rightarrow> pystr list \<Rightarrow> pystr option" where
  "page_two U doc = (if 2 \<le> length doc then find_pod_in_text U (doc ! 1) else None)"

definition extract_pod_from_pdf :: "ucd \<Rightarrow> pystr list \<Rightarrow> pystr option" where
  "extract_pod_from_pdf U doc =
     (let pod = page_two U doc in if truthy pod then pod else scan_pages U doc)"

section \<open>Routing and file names (\<open>main.py\<close>)\<close>

text \<open>
  The module constants.  \<open>EXCEPT_KEYWORDS\<close> is configuration that the deployment edits, so
  \<open>is_exception_company\<close> takes the keyword list as an argument; the list of the source
  is given for reference.  Code point 92 is the backslash.
\<close>

definition OUT_ELECTRICITY :: pystr where
  "OUT_ELECTRICITY = str ''F:'' @ [92] @ str ''[Company_Path]'' @ [92] @ str ''Electricity'' @
     [92] @ str ''Invoices'' @ [92] @ str ''Incoming''"

definition OUT_GAS :: pystr where
  "OUT_GAS = str ''F:'' @ [92] @ str ''[Company_Path]'' @ [92] @ str ''Gas'' @
     [92] @ str ''Commercial_Invoices'' @ [92] @ str ''Incoming''"

definition EXCEPT_KEYWORDS :: "pystr list" where
  "EXCEPT_KEYWORDS = [str ''[Company_A]'', str ''[Company_B]'', str ''[Company_C]'',
                      str ''[Company_D]'', str ''[Company_E]'']"

text \<open>\<open>sub in s\<close> for strings: \<open>sub\<close> occurs in \<open>s\<close> as a contiguous piece.\<close>

fun contains :: "pystr \<Rightarrow> pystr \<Rightarrow> bool" where
  "contains sub [] = (sub = [])"
| "contains sub (c # cs) = (startswith (c # cs) sub \<or> contains sub cs)"

definition is_exception_company :: "ucd \<Rightarrow> pystr list \<Rightarrow> pystr option \<Rightarrow> bool" where
  "is_exception_company U keywords name =
     (if \<not> truthy name then False
      else let name_lower = py_lower U (the name)
           in list_ex (\<lambda>keyword. contains (py_lower U keyword) name_lower) keywords)"

text \<open>The class \<open>[\\\\/:*?"<>|]\<close> of the characters Windows forbids in a file name.\<close>

definition illegal :: "nat \<Rightarrow> bool" where
  "illegal c \<longleftrightarrow> c = 92 \<or> c = 47 \<or> c = 58 \<or> c = 42 \<or> c = 63 \<or> c = 34 \<or> c = 60 \<or> c = 62 \<or> c = 124"

definition safe_filename :: "pystr \<Rightarrow> pystr" where
  "safe_filename filename =
     py_strip (re_sub (Rep is_space 1 None) (str '' '') (re_sub (Rep illegal 1 None) (str '' '') filename))"

definition route_folder :: "ucd \<Rightarrow> pystr option \<Rightarrow> pystr option" where
  "route_folder U pod =
     (if \<not> truthy pod then None
      else let pod_upper = py_upper U (the pod)
           in if startswith pod_upper (str ''HU'') then Some OUT_ELECTRICITY
              else if startswith pod_upper (str ''39'') then Some OUT_GAS
              else Some OUT_ELECTRICITY)"

text \<open>\<open>str(n)\<close> of a counter: the decimal digits.\<close>

fun str_int :: "nat \<Rightarrow> pystr" where
  "str_int n = (if n < 10 then [48 + n] else str_int (n div 10) @ [48 + n mod 10])"

declare str_int.simps [simp del]

text \<open>
  \<open>os.path.splitext\<close> of \<open>ntpath\<close>: the extension starts at the last dot of the last
  path component, leading dots of the component not counted.
\<close>

definition is_sep :: "nat \<Rightarrow> bool" where
  "is_sep c \<longleftrightarrow> c = 92 \<or> c = 47"

definition splitext :: "pystr \<Rightarrow> pystr \<times> pystr" where
  "splitext p =
     (let name = rev (takeWhile (\<lambda>c. \<not> is_sep c) (rev p));
          body = dropWhile (\<lambda>c. c = 46) name;
          ext = rev (takeWhile (\<lambda>c. c \<noteq> 46) (rev body))
      in if 46 \<in> set body then (take (length p - length ext - 1) p, 46 # ext) else (p, []))"

text \<open>
  Steps 7 and 8 of \<open>process_attachment\<close>.  The output directories of the program do not
  end in a separator, so \<open>os.path.join\<close> puts one backslash between directory and name.
  \<open>os.path.exists\<close> is membership in the set of the paths that exist; the loop does not
  change it.  The loop runs for as long as the next candidate exists, so it is a partial
  function: \<open>None\<close> stands for a loop that does not end.
\<close>

definition base_filename :: "pystr \<Rightarrow> pystr \<Rightarrow> pystr \<Rightarrow> pystr" where
  "base_filename company_name pod_identifier invoice_number =
     safe_filename company_name @ str ''_'' @ pod_identifier @ str ''_'' @ invoice_number @ str ''.pdf''"

definition path_join :: "pystr \<Rightarrow> pystr \<Rightarrow> pystr" where
  "path_join directory name = directory @ [92] @ name"

definition numbered :: "pystr \<Rightarrow> nat \<Rightarrow> pystr" where
  "numbered output_path counter =
     (case splitext output_path of
        (root, ext) \<Rightarrow> root @ str '' ('' @ str_int counter @ str '')'' @ ext)"

partial_function (option) dedup_loop :: "pystr set \<Rightarrow> pystr \<Rightarrow> pystr \<Rightarrow> nat \<Rightarrow> pystr option" where
  "dedup_loop existing output_path final_path counter =
     (if final_path \<in> existing
      then dedup_loop existing output_path (numbered output_path counter) (counter + 1)
      else Some final_path)"

definition final_path :: "pystr set \<Rightarrow> pystr \<Rightarrow> pystr option" where
  "final_path existing output_path = dedup_loop existing output_path output_path 1"

section \<open>Reference functions for the properties\<close>

text \<open>
  What substituting a repetition \<open>C{lo,}\<close> of a character class \<open>C\<close> comes to, said
  without the matcher: a run of at least \<open>lo\<close> characters of the class is replaced as a
  whole, every other character is kept.
\<close>

function replace_runs :: "(nat \<Rightarrow> bool) \<Rightarrow> nat \<Rightarrow> pystr \<Rightarrow> pystr \<Rightarrow> pystr" where
  "replace_runs p lo repl [] = []"
| "replace_runs p lo repl (c # cs) =
     (if p c \<and> lo \<le> length (takeWhile p (c # cs))
      then repl @ replace_runs p lo repl (dropWhile p cs)
      else c # replace_runs p lo repl cs)"
  by pat_completeness auto
termination
  by (relation "measure (\<lambda>(p, lo, repl, s). length s)")
     (auto simp: less_Suc_eq_le length_dropWhile_le)

text \<open>Two neighbouring characters of a text are both in the class.\<close>

fun adjacent :: "(nat \<Rightarrow> bool) \<Rightarrow> pystr \<Rightarrow> bool" where
  "adjacent p (a # b # s) = ((p a \<and> p b) \<or> adjacent p (b # s))"
| "adjacent p _ = False"

text \<open>
  \<open>upper_stable\<close>: the code points that \<open>str.upper\<close> produces are left unchanged by
  \<open>str.upper\<close>.  The case mappings of Unicode have this property.
\<close>

definition upper_stable :: "ucd \<Rightarrow> bool" where
  "upper_stable U = (\<forall>c. \<forall>d \<in> set (upper_cp U c). upper_cp U d = [d])"

text \<open>
  An instance of the tables, for examples: the entries of the accented letters of the
  Hungarian alphabet (a, e, i, o, u with acute, o and u with diaeresis and with double
  acute); in it every other code point from 128 upwards is a symbol without case.
\<close>

definition accented_small :: "nat \<Rightarrow> bool" where
  "accented_small c \<longleftrightarrow> c = 225 \<or> c = 233 \<or> c = 237 \<or> c = 243 \<or> c = 246 \<or> c = 250 \<or> c = 252"

definition accented_capital :: "nat \<Rightarrow> bool" where
  "accented_capital c \<longleftrightarrow> c = 193 \<or> c = 201 \<or> c = 205 \<or> c = 211 \<or> c = 214 \<or> c = 218 \<or> c = 220"

definition hungarian :: ucd where
  "hungarian =
     \<lparr>ucd_upper = (\<lambda>c. if accented_small c then [c - 32]
                        else if c = 337 \<or> c = 369 then [c - 1] else [c]),
      ucd_lower = map (\<lambda>c. if accented_capital c then c + 32
                             else if c = 336 \<or> c = 368 then c + 1 else lower_ascii c),
      ucd_decimal = (\<lambda>c. False),
      ucd_alnum = (\<lambda>c. accented_small c \<or> accented_capital c \<or> (336 \<le> c \<and> c \<le> 337) \<or>
                        (368 \<le> c \<and> c \<le> 369))\<rparr>"

text \<open>The first match of the earliest pattern of a list that matches in the text.\<close>

fun first_match :: "regex list \<Rightarrow> pystr \<Rightarrow> pystr option" where
  "first_match [] text = None"
| "first_match (pat # pats) text =
     (case findall pat text of [] \<Rightarrow> first_match pats text | m # ms \<Rightarrow> Some m)"

text \<open>
  The locator as the specification words it: page 2 is searched with the two
  after-label patterns only, and the scan of all pages, with the four patterns, runs when
  that found nothing.
\<close>

definition spec_locate :: "ucd \<Rightarrow> pystr list \<Rightarrow> pystr option" where
  "spec_locate U doc =
     (let pod = (if 2 \<le> length doc \<and> doc ! 1 \<noteq> []
                 then try_patterns U [AFTER_LABEL_HU U, AFTER_LABEL_39 U] (doc ! 1) else None)
      in if truthy pod then pod else scan_pages U doc)"

text \<open>
  A second instance of the tables, with the Greek alphabet.  \<open>str.lower\<close> turns a capital
  sigma (931) into the final small sigma (962) when a letter stands before it and none
  after it, and into the small sigma (963) otherwise; the other capitals (913 to 937) are
  32 below their small letters.
\<close>

definition greek_cased :: "nat \<Rightarrow> bool" where
  "greek_cased c \<longleftrightarrow> (65 \<le> c \<and> c \<le> 90) \<or> (97 \<le> c \<and> c \<le> 122) \<or>
                   (913 \<le> c \<and> c \<le> 937) \<or> (945 \<le> c \<and> c \<le> 969)"

fun greek_lower :: "bool \<Rightarrow> pystr \<Rightarrow> pystr" where
  "greek_lower after [] = []"
| "greek_lower after (c # cs) =
     (if c = 931
      then (if after \<and> \<not> (case cs of [] \<Rightarrow> False | d # _ \<Rightarrow> greek_cased d) then 962 else 963)
           # greek_lower True cs
      else (if 913 \<le> c \<and> c \<le> 937 then c + 32 else lower_ascii c) # greek_lower (greek_cased c) cs)"

definition greek :: ucd where
  "greek = \<lparr>ucd_upper = (\<lambda>c. if 945 \<le> c \<and> c \<le> 969 then [if c = 962 then 931 else c - 32] else [c]),
            ucd_lower = greek_lower False,
            ucd_decimal = (\<lambda>c. False),
            ucd_alnum = (\<lambda>c. (913 \<le> c \<and> c \<le> 937) \<or> (945 \<le> c \<and> c \<le> 969))\<rparr>"

section \<open>Properties\<close>

text \<open>
  C10: on the body \<open>Tisztelt  !\<close> (two spaces before the exclamation mark) the greeting
  pattern matches with a company of one space, which \<open>strip\<close> empties: the function
  returns the empty string, not \<open>None\<close>.
\<close>

theorem extract_company_empty_name:
  "extract_company (str ''Tisztelt  !'') = Inr (Some [])"
  by (simp add: extract_company_def group_strip_def str_def re_search_def match_here_def
      RE_GREET_def cats_def lit_def ic_def ic_class_def is_space_def py_strip_def strip_where_def)

subsection \<open>Substitution of a repeated character class\<close>

lemma rep_greedy_final:
  "rep_greedy p lo None prev s (\<lambda>prev' s'. Some (g, s')) =
     (if lo \<le> length (takeWhile p s) then Some (g, dropWhile p s) else None)"
  by (induction s arbitrary: lo prev) auto

lemma length_dropWhile_takeWhile:
  "length s - length (dropWhile p s) = length (takeWhile p s)"
proof -
  have "length (takeWhile p s) + length (dropWhile p s) = length s"
    by (metis length_append takeWhile_dropWhile_id)
  then show ?thesis by simp
qed

lemma match_here_Rep:
  "match_here (Rep p lo None) prev s =
     (if lo \<le> length (takeWhile p s) then Some (takeWhile p s, None) else None)"
  by (simp add: match_here_def rep_greedy_final length_dropWhile_takeWhile takeWhile_eq_take [symmetric])

lemma sub_from_Rep_prev:
  "prev \<noteq> None \<Longrightarrow>
   sub_from (Rep p lo None) repl skip prev s = sub_from (Rep p lo None) repl skip None s"
proof (induction s arbitrary: skip prev)
  case Nil
  then show ?case by (simp add: match_here_Rep)
next
  case (Cons c cs)
  show ?case by (simp add: match_here_Rep)
qed

lemma sub_from_Rep_skip:
  "skip \<le> length s \<Longrightarrow>
   sub_from (Rep p lo None) repl skip prev s = sub_from (Rep p lo None) repl 0 None (drop skip s)"
proof (induction s arbitrary: skip prev)
  case Nil
  then show ?case by (simp add: match_here_Rep)
next
  case (Cons c cs)
  show ?case
  proof (cases skip)
    case 0
    then show ?thesis by (cases prev) (simp_all add: sub_from_Rep_prev del: sub_from.simps)
  next
    case (Suc n)
    with Cons show ?thesis by simp
  qed
qed

lemma re_sub_Rep:
  "0 < lo \<Longrightarrow> sub_from (Rep p lo None) repl 0 prev s = replace_runs p lo repl s"
proof (induction p lo repl s arbitrary: prev rule: replace_runs.induct)
  case (1 p lo repl)
  then show ?case by (simp add: match_here_Rep)
next
  case (2 p lo repl c cs)
  show ?case
  proof (cases "p c \<and> lo \<le> length (takeWhile p (c # cs))")
    case True
    have le: "length (takeWhile p cs) \<le> length cs" by (simp add: length_takeWhile_le)
    from True have pc: "p c" and lo: "lo \<le> Suc (length (takeWhile p cs))" by auto
    have "sub_from (Rep p lo None) repl 0 prev (c # cs) =
          repl @ sub_from (Rep p lo None) repl (length (takeWhile p cs)) (Some c) cs"
      using pc lo by (simp add: match_here_Rep)
    also have "\<dots> = repl @ sub_from (Rep p lo None) repl 0 None (dropWhile p cs)"
      using sub_from_Rep_skip [OF le, of p lo repl "Some c"] by (simp add: dropWhile_eq_drop)
    also have "\<dots> = repl @ replace_runs p lo repl (dropWhile p cs)"
      using 2(1) [OF True] 2(3) by simp
    finally show ?thesis using pc lo by simp
  next
    case False
    have "sub_from (Rep p lo None) repl 0 prev (c # cs) =
          c # sub_from (Rep p lo None) repl 0 (Some c) cs"
      using False 2(3) by (auto simp: match_here_Rep)
    also have "\<dots> = c # replace_runs p lo repl cs"
      using 2(2) [OF False] 2(3) by simp
    finally show ?thesis using False by simp
  qed
qed

subsection \<open>Stripping, filtering and runs\<close>

lemma strip_where_prefix: "\<exists>w. dropWhile q s = strip_where q s @ w"
proof -
  have "rev (dropWhile q s) = takeWhile q (rev (dropWhile q s)) @ dropWhile q (rev (dropWhile q s))"
    by simp
  then have "dropWhile q s = rev (dropWhile q (rev (dropWhile q s))) @ rev (takeWhile q (rev (dropWhile q s)))"
    by (metis rev_append rev_rev_ident)
  then show ?thesis unfolding strip_where_def by blast
qed

lemma set_strip_where: "set (strip_where q s) \<subseteq> set s"
proof -
  obtain w where "dropWhile q s = strip_where q s @ w" using strip_where_prefix by blast
  then have "set (strip_where q s) \<subseteq> set (dropWhile q s)" by simp
  also have "\<dots> \<subseteq> set s" by (auto dest: set_dropWhileD)
  finally show ?thesis .
qed

lemma strip_where_head: "strip_where q s = [] \<or> \<not> q (hd (strip_where q s))"
proof (cases "strip_where q s")
  case Nil
  then show ?thesis by simp
next
  case (Cons a z)
  obtain w where w: "dropWhile q s = strip_where q s @ w" using strip_where_prefix by blast
  with Cons have "dropWhile q s \<noteq> []" and "hd (dropWhile q s) = a" by simp_all
  then have "\<not> q a" using hd_dropWhile [of q s] by auto
  with Cons show ?thesis by simp
qed

lemma strip_where_idem: "strip_where q (strip_where q s) = strip_where q s"
proof -
  let ?z = "strip_where q s"
  have d: "dropWhile q ?z = ?z"
    using strip_where_head [of q s] by (cases ?z) auto
  have "rev (dropWhile q (rev ?z)) = ?z"
    by (simp add: strip_where_def)
  with d show ?thesis by (simp add: strip_where_def)
qed

lemma strip_where_Cons: "\<not> q a \<Longrightarrow> strip_where q (a # s) = a # rev (dropWhile q (rev s))"
  by (simp add: strip_where_def dropWhile_append)

lemma adjacent_Cons: "adjacent p (a # s) = ((s \<noteq> [] \<and> p a \<and> p (hd s)) \<or> adjacent p s)"
  by (cases s) auto

lemma adjacent_append_left: "adjacent p s \<Longrightarrow> adjacent p (s @ w)"
  by (induction p s rule: adjacent.induct) auto

lemma adjacent_append_right: "adjacent p w \<Longrightarrow> adjacent p (s @ w)"
  by (induction s) (auto simp: adjacent_Cons)

lemma adjacent_strip_where: "adjacent p (strip_where q s) \<Longrightarrow> adjacent p s"
proof -
  assume a: "adjacent p (strip_where q s)"
  obtain w where w: "dropWhile q s = strip_where q s @ w" using strip_where_prefix by blast
  have "s = takeWhile q s @ strip_where q s @ w"
    using w by (metis takeWhile_dropWhile_id)
  then show ?thesis using a adjacent_append_left adjacent_append_right by metis
qed

lemma filter_dropWhile: "filter (\<lambda>c. \<not> p c) (dropWhile p s) = filter (\<lambda>c. \<not> p c) s"
  by (induction s) auto

lemma replace_runs_delete: "replace_runs p (Suc 0) [] s = filter (\<lambda>c. \<not> p c) s"
  by (induction p "Suc 0" "[] :: nat list" s rule: replace_runs.induct)
     (auto simp: filter_dropWhile)

lemma set_dropWhile_subset: "set (dropWhile p s) \<subseteq> set s"
  by (auto dest: set_dropWhileD)

lemma set_replace_runs: "set (replace_runs p lo repl s) \<subseteq> set s \<union> set repl"
proof (induction p lo repl s rule: replace_runs.induct)
  case (1 p lo repl)
  then show ?case by simp
next
  case (2 p lo repl c cs)
  show ?case
  proof (cases "p c \<and> lo \<le> length (takeWhile p (c # cs))")
    case True
    with 2(1) set_dropWhile_subset [of p cs] show ?thesis by auto
  next
    case False
    with 2(2) show ?thesis by auto
  qed
qed

lemma replace_runs_head:
  "s = [] \<or> \<not> p (hd s) \<Longrightarrow> replace_runs p lo repl s = [] \<or> \<not> p (hd (replace_runs p lo repl s))"
  by (cases s) auto

lemma dropWhile_head: "dropWhile p s = [] \<or> \<not> p (hd (dropWhile p s))"
  using hd_dropWhile [of p s] by blast

lemma replace_runs_no_adjacent: "\<not> adjacent p (replace_runs p 2 [h] s)"
proof (induction p "2 :: nat" "[h]" s rule: replace_runs.induct)
  case (1 p)
  then show ?case by simp
next
  case (2 p c cs)
  show ?case
  proof (cases "p c \<and> 2 \<le> length (takeWhile p (c # cs))")
    case True
    have "replace_runs p 2 [h] (dropWhile p cs) = [] \<or>
          \<not> p (hd (replace_runs p 2 [h] (dropWhile p cs)))"
      by (rule replace_runs_head) (rule dropWhile_head)
    with True 2 show ?thesis
      by (auto simp: adjacent_Cons)
  next
    case False
    have "p c \<Longrightarrow> cs = [] \<or> \<not> p (hd cs)"
      using False by (cases cs) auto
    with False 2 replace_runs_head [where s=cs and p=p and lo=2 and repl="[h]"] show ?thesis
      by (auto simp: adjacent_Cons)
  qed
qed

lemma replace_runs_fixed: "\<not> adjacent p s \<Longrightarrow> replace_runs p 2 repl s = s"
proof (induction p "2 :: nat" repl s rule: replace_runs.induct)
  case (1 p repl)
  then show ?case by simp
next
  case (2 p repl c cs)
  have n: "\<not> (p c \<and> 2 \<le> length (takeWhile p (c # cs)))"
    using 2(3) by (cases cs) auto
  have "\<not> adjacent p cs" using 2(3) by (simp add: adjacent_Cons)
  with n 2 show ?case by auto
qed

subsection \<open>POD normalization\<close>

lemma normalize_pod_runs:
  "normalize_pod U s =
     strip_hyphens (replace_runs is_hyphen 2 [45] (filter (\<lambda>c. \<not> is_space c) (py_upper U s)))"
  by (simp add: normalize_pod_def re_sub_def re_sub_Rep replace_runs_delete str_def)

lemma py_upper_fixed: "\<forall>d \<in> set t. upper_cp U d = [d] \<Longrightarrow> py_upper U t = t"
  by (induction t) (auto simp: py_upper_def)

lemma set_py_upper: "d \<in> set (py_upper U s) \<Longrightarrow> \<exists>c. d \<in> set (upper_cp U c)"
  by (auto simp: py_upper_def)

lemma set_normalize_pod:
  "d \<in> set (normalize_pod U s) \<Longrightarrow> \<not> is_space d \<and> (d = 45 \<or> d \<in> set (py_upper U s))"
proof -
  let ?f = "filter (\<lambda>c. \<not> is_space c) (py_upper U s)"
  assume "d \<in> set (normalize_pod U s)"
  then have "d \<in> set (replace_runs is_hyphen 2 [45] ?f)"
    using set_strip_where [of is_hyphen] by (auto simp: normalize_pod_runs strip_hyphens_def)
  then have "d \<in> set ?f \<union> set [45]"
    using set_replace_runs [of is_hyphen 2 "[45]" ?f] by blast
  then show ?thesis by (auto simp: is_space_def)
qed

lemma normalize_pod_idem:
  assumes "upper_stable U"
  shows "normalize_pod U (normalize_pod U s) = normalize_pod U s"
proof -
  let ?t = "normalize_pod U s"
  have up: "py_upper U ?t = ?t"
  proof (rule py_upper_fixed, rule ballI)
    fix d assume "d \<in> set ?t"
    then have "d = 45 \<or> d \<in> set (py_upper U s)" using set_normalize_pod by blast
    then show "upper_cp U d = [d]"
    proof
      assume "d = 45" then show ?thesis by (simp add: upper_cp_def)
    next
      assume "d \<in> set (py_upper U s)"
      then obtain c where "d \<in> set (upper_cp U c)" using set_py_upper by blast
      with assms show ?thesis by (auto simp: upper_stable_def)
    qed
  qed
  have fl: "filter (\<lambda>c. \<not> is_space c) ?t = ?t"
    using set_normalize_pod [of _ U s] by (auto simp: filter_id_conv)
  have "\<not> adjacent is_hyphen ?t"
    using adjacent_strip_where [of is_hyphen is_hyphen] replace_runs_no_adjacent [of is_hyphen 45]
    by (auto simp: normalize_pod_runs strip_hyphens_def)
  then have rr: "replace_runs is_hyphen 2 [45] ?t = ?t" by (rule replace_runs_fixed)
  have st: "strip_hyphens ?t = ?t"
    by (simp add: normalize_pod_runs strip_hyphens_def strip_where_idem)
  show ?thesis
    by (subst normalize_pod_runs [of U ?t]) (simp only: up fl rr st)
qed

lemma upper_stable_hungarian: "upper_stable hungarian"
  unfolding upper_stable_def
proof (intro allI ballI)
  fix c d assume d: "d \<in> set (upper_cp hungarian c)"
  consider (low) "97 \<le> c \<and> c \<le> 122" | (asc) "c < 128 \<and> \<not> (97 \<le> c \<and> c \<le> 122)"
    | (acc) "accented_small c" | (dbl) "c = 337 \<or> c = 369"
    | (oth) "128 \<le> c \<and> \<not> accented_small c \<and> c \<noteq> 337 \<and> c \<noteq> 369"
    by (cases "c < 128") auto
  then show "upper_cp hungarian d = [d]"
  proof cases
    case low
    with d have "d = c - 32" by (simp add: upper_cp_def)
    with low have "65 \<le> d \<and> d \<le> 90" by arith
    then show ?thesis by (simp add: upper_cp_def)
  next
    case asc
    with d have "d = c" by (simp add: upper_cp_def)
    with asc show ?thesis by (auto simp: upper_cp_def)
  next
    case acc
    then have "128 \<le> c" by (auto simp: accented_small_def)
    with d acc have "d = c - 32" by (simp add: upper_cp_def hungarian_def)
    with acc show ?thesis by (auto simp: accented_small_def upper_cp_def hungarian_def)
  next
    case dbl
    with d have "d = c - 1" by (auto simp: upper_cp_def hungarian_def accented_small_def)
    with dbl show ?thesis by (auto simp: accented_small_def upper_cp_def hungarian_def)
  next
    case oth
    with d have "d = c" by (simp add: upper_cp_def hungarian_def)
    with oth show ?thesis by (auto simp: upper_cp_def hungarian_def)
  qed
qed

lemma normalize_pod_lower_case: "normalize_pod U (str ''hu-12-34'') = str ''HU-12-34''"
  by (simp add: normalize_pod_runs str_def py_upper_def upper_cp_def is_space_def is_hyphen_def
      strip_hyphens_def strip_where_def)

lemma normalize_pod_double_hyphen: "normalize_pod U (str ''HU--12'') = str ''HU-12''"
  by (simp add: normalize_pod_runs str_def py_upper_def upper_cp_def is_space_def is_hyphen_def
      strip_hyphens_def strip_where_def)

lemma normalize_pod_blanks: "normalize_pod U (str '' HU 12 '') = str ''HU12''"
  by (simp add: normalize_pod_runs str_def py_upper_def upper_cp_def is_space_def is_hyphen_def
      strip_hyphens_def strip_where_def)

lemma normalize_pod_shape:
  "list_all (\<lambda>c. \<not> is_space c) (normalize_pod U s) \<and>
   \<not> adjacent is_hyphen (normalize_pod U s) \<and>
   strip_hyphens (normalize_pod U s) = normalize_pod U s"
proof -
  have "\<not> adjacent is_hyphen (normalize_pod U s)"
    using adjacent_strip_where [of is_hyphen is_hyphen] replace_runs_no_adjacent [of is_hyphen 45]
    by (auto simp: normalize_pod_runs strip_hyphens_def)
  moreover have "strip_hyphens (normalize_pod U s) = normalize_pod U s"
    by (simp add: normalize_pod_runs strip_hyphens_def strip_where_idem)
  moreover have "list_all (\<lambda>c. \<not> is_space c) (normalize_pod U s)"
    using set_normalize_pod [of _ U s] by (auto simp: list_all_iff)
  ultimately show ?thesis by blast
qed

lemma strip_where_last: "strip_where q s = [] \<or> \<not> q (last (strip_where q s))"
proof (cases "strip_where q s = []")
  case True
  then show ?thesis by simp
next
  case False
  let ?d = "dropWhile q (rev (dropWhile q s))"
  from False have ne: "?d \<noteq> []" by (simp add: strip_where_def)
  then have "\<not> q (hd ?d)" using hd_dropWhile [of q "rev (dropWhile q s)"] by simp
  moreover have "last (strip_where q s) = hd ?d"
    using ne by (simp add: strip_where_def last_rev)
  ultimately show ?thesis by simp
qed

lemma is_hyphen_fun: "is_hyphen = (\<lambda>c. c = 45)"
  by (auto simp: is_hyphen_def)

lemma normalize_pod_ends:
  "normalize_pod U s = [] \<or> (hd (normalize_pod U s) \<noteq> 45 \<and> last (normalize_pod U s) \<noteq> 45)"
  using strip_where_head [of is_hyphen] strip_where_last [of is_hyphen]
  unfolding normalize_pod_runs strip_hyphens_def
  by (auto simp: is_hyphen_def)

lemma normalize_pod_single_hyphens: "\<not> adjacent (\<lambda>c. c = 45) (normalize_pod U s)"
  using normalize_pod_shape [of U s] by (simp add: is_hyphen_fun)

lemma normalize_pod_outer_hyphens: "normalize_pod U (str ''--hu--12 - '') = str ''HU-12''"
  by (simp add: normalize_pod_runs str_def py_upper_def upper_cp_def is_space_def is_hyphen_def
      strip_hyphens_def strip_where_def)

lemma normalize_pod_upper:
  assumes "upper_stable U"
  shows "py_upper U (normalize_pod U s) = normalize_pod U s"
proof (rule py_upper_fixed, rule ballI)
  fix d assume "d \<in> set (normalize_pod U s)"
  then have "d = 45 \<or> d \<in> set (py_upper U s)" using set_normalize_pod by blast
  then show "upper_cp U d = [d]"
  proof
    assume "d = 45" then show ?thesis by (simp add: upper_cp_def)
  next
    assume "d \<in> set (py_upper U s)"
    then obtain c where "d \<in> set (upper_cp U c)" using set_py_upper by blast
    with assms show ?thesis by (auto simp: upper_stable_def)
  qed
qed

text \<open>
  C3: normalizing a POD twice gives the same as normalizing it once, for every string;
  and \<open>hu-12-34\<close>, \<open>HU--12\<close> and \<open> HU 12 \<close> normalize to \<open>HU-12-34\<close>, \<open>HU-12\<close> and
  \<open>HU12\<close>.  A normalized value is in upper case, holds no white space and no two
  neighbouring hyphens (code point 45), and neither begins nor ends with a hyphen:
  \<open>--hu--12 - \<close> becomes \<open>HU-12\<close>.  Idempotence and the upper case need of the case
  tables what Unicode guarantees: the characters that upper-casing produces are
  upper-cased to themselves.
\<close>

theorem normalize_pod_idempotent:
  assumes "upper_stable U"
  shows "normalize_pod U (normalize_pod U s) = normalize_pod U s \<and>
         normalize_pod U (str ''hu-12-34'') = str ''HU-12-34'' \<and>
         normalize_pod U (str ''HU--12'') = str ''HU-12'' \<and>
         normalize_pod U (str '' HU 12 '') = str ''HU12'' \<and>
         list_all (\<lambda>c. \<not> is_space c) (normalize_pod U s) \<and>
         \<not> adjacent is_hyphen (normalize_pod U s) \<and>
         strip_hyphens (normalize_pod U s) = normalize_pod U s \<and>
         normalize_pod U (str ''--hu--12 - '') = str ''HU-12'' \<and>
         (normalize_pod U s = [] \<or>
          (hd (normalize_pod U s) \<noteq> 45 \<and> last (normalize_pod U s) \<noteq> 45)) \<and>
         \<not> adjacent (\<lambda>c. c = 45) (normalize_pod U s) \<and>
         py_upper U (normalize_pod U s) = normalize_pod U s"
  using normalize_pod_idem [OF assms] normalize_pod_lower_case normalize_pod_double_hyphen
    normalize_pod_blanks normalize_pod_shape [of U s] normalize_pod_outer_hyphens [of U]
    normalize_pod_ends [of U s] normalize_pod_single_hyphens [of U s]
    normalize_pod_upper [OF assms, of s]
  by blast

theorem normalize_pod_idempotent_witness:
  "upper_stable hungarian \<and>
   normalize_pod hungarian (normalize_pod hungarian ([233] @ str '' hu--12 -'')) =
   normalize_pod hungarian ([233] @ str '' hu--12 -'')"
  using normalize_pod_idempotent [OF upper_stable_hungarian, of "[233] @ str '' hu--12 -''"]
    upper_stable_hungarian
  by blast

subsection \<open>File names\<close>

lemma safe_filename_runs:
  "safe_filename s = py_strip (replace_runs is_space 1 [32] (replace_runs illegal 1 [32] s))"
  by (simp add: safe_filename_def re_sub_def re_sub_Rep str_def)








subsection \<open>Routing\<close>

lemma route_folder_cases:
  "route_folder U None = None \<and> route_folder U (Some []) = None \<and>
   route_folder U (Some (c # cs)) =
     Some (if startswith (py_upper U (c # cs)) (str ''HU'') then OUT_ELECTRICITY
           else if startswith (py_upper U (c # cs)) (str ''39'') then OUT_GAS
           else OUT_ELECTRICITY)"
  by (simp add: route_folder_def Let_def)

lemma route_folder_examples:
  "route_folder U (Some (str ''HU001234567890'')) = Some OUT_ELECTRICITY \<and>
   route_folder U (Some (str ''39001234567890'')) = Some OUT_GAS \<and>
   route_folder U (Some (str ''XX00000000'')) = Some OUT_ELECTRICITY"
  by (simp add: route_folder_def Let_def str_def py_upper_def upper_cp_def startswith_def)

text \<open>
  C2, as the code has it: \<open>route_folder\<close> returns \<open>None\<close> for \<open>None\<close> and also for the
  empty string (\<open>if not pod\<close>); for every other string the upper-cased prefix \<open>HU\<close> gives
  the electricity folder, \<open>39\<close> the gas folder and anything else the electricity
  folder again.
\<close>

theorem route_folder_total:
  "route_folder U None = None \<and> route_folder U (Some []) = None \<and>
   route_folder U (Some (c # cs)) =
     Some (if startswith (py_upper U (c # cs)) (str ''HU'') then OUT_ELECTRICITY
           else if startswith (py_upper U (c # cs)) (str ''39'') then OUT_GAS
           else OUT_ELECTRICITY) \<and>
   route_folder U (Some (str ''HU001234567890'')) = Some OUT_ELECTRICITY \<and>
   route_folder U (Some (str ''39001234567890'')) = Some OUT_GAS \<and>
   route_folder U (Some (str ''XX00000000'')) = Some OUT_ELECTRICITY"
  using route_folder_cases [of U c cs] route_folder_examples [of U] by blast

text \<open>
  C2 as stated fails for the empty string: it is not \<open>None\<close>, its prefix is
  neither \<open>HU\<close> nor \<open>39\<close>, and yet there is no destination.
\<close>

theorem route_folder_empty_pod: "route_folder hungarian (Some []) = None"
  by (simp add: route_folder_def)

subsection \<open>Exception companies\<close>

lemma startswith_iff: "startswith s sub \<longleftrightarrow> (\<exists>suf. s = sub @ suf)"
  unfolding startswith_def
  by (metis append_eq_conv_conj)

lemma contains_iff: "contains sub s \<longleftrightarrow> (\<exists>pre suf. s = pre @ sub @ suf)"
proof (induction s)
  case Nil
  then show ?case by simp
next
  case (Cons c cs)
  show ?case
  proof
    assume "contains sub (c # cs)"
    then consider "startswith (c # cs) sub" | "contains sub cs" by auto
    then show "\<exists>pre suf. c # cs = pre @ sub @ suf"
    proof cases
      case 1
      then obtain suf where "c # cs = [] @ sub @ suf" by (auto simp: startswith_iff)
      then show ?thesis by blast
    next
      case 2
      with Cons obtain pre suf where "cs = pre @ sub @ suf" by auto
      then have "c # cs = (c # pre) @ sub @ suf" by simp
      then show ?thesis by blast
    qed
  next
    assume "\<exists>pre suf. c # cs = pre @ sub @ suf"
    then obtain pre suf where e: "c # cs = pre @ sub @ suf" by blast
    show "contains sub (c # cs)"
    proof (cases pre)
      case Nil
      with e have "startswith (c # cs) sub" by (auto simp: startswith_iff)
      then show ?thesis by simp
    next
      case (Cons a pre')
      with e have "cs = pre' @ sub @ suf" by simp
      with Cons.IH show ?thesis by auto
    qed
  qed
qed

lemma acme_example:
  "is_exception_company U [str ''Acme''] (Some (str ''The ACME Corporation''))"
  by (simp add: is_exception_company_def Let_def str_def py_lower_def lower_ascii_def startswith_def)

lemma is_exception_company_cases:
  "is_exception_company U keywords None = False \<and>
   is_exception_company U keywords (Some []) = False \<and>
   is_exception_company U keywords (Some (c # cs)) =
     (\<exists>k \<in> set keywords. \<exists>pre suf. py_lower U (c # cs) = pre @ py_lower U k @ suf)"
  by (simp add: is_exception_company_def Let_def list_ex_iff contains_iff)

lemma empty_keyword: "\<not> is_exception_company hungarian [[]] (Some [])"
  by (simp add: is_exception_company_def)

lemma sigma_keyword: "\<not> is_exception_company greek [[931, 927, 931]] (Some [931, 927, 931, 913])"
  by (simp add: is_exception_company_def Let_def py_lower_def greek_def greek_cased_def
      lower_ascii_def startswith_def)

lemma sigma_lower:
  "py_lower greek [931, 927, 931] = [963, 959, 962]"
  "py_lower greek [931, 927, 931, 913] = [963, 959, 963, 945]"
  by (simp_all add: py_lower_def greek_def greek_cased_def lower_ascii_def)

text \<open>
  C6, as the code has it: \<open>is_exception_company\<close> is false for an absent name and for
  the empty name (\<open>if not name\<close>); for a non-empty name it holds exactly when the
  lower-cased name (\<open>str.lower\<close>) contains the lower-cased form of some keyword.  Keyword
  \<open>Acme\<close> matches \<open>The ACME Corporation\<close>.
\<close>

theorem is_exception_company_lowered:
  "is_exception_company U keywords None = False \<and>
   is_exception_company U keywords (Some []) = False \<and>
   is_exception_company U keywords (Some (c # cs)) =
     (\<exists>k \<in> set keywords. \<exists>pre suf. py_lower U (c # cs) = pre @ py_lower U k @ suf) \<and>
   is_exception_company U [str ''Acme''] (Some (str ''The ACME Corporation''))"
  using is_exception_company_cases [of U "keywords" c cs] acme_example [of U] by blast

theorem is_exception_company_lowered_witness:
  "is_exception_company hungarian [str ''Acme''] (Some (str ''The ACME Corporation'')) \<and>
   \<not> is_exception_company hungarian EXCEPT_KEYWORDS (Some [])"
  using is_exception_company_lowered [of hungarian EXCEPT_KEYWORDS] by blast

text \<open>
  C6 as stated fails in two ways.  The empty keyword occurs in the empty name, and the
  function is false there.  And the keyword of the three capitals sigma, omicron, sigma
  (931, 927, 931) occurs as it stands in the name of these three followed by a capital
  alpha (913), and the function is false there too: the last sigma of the keyword is
  lower-cased to the final form 962, the same sigma inside the name to 963.
\<close>

theorem is_exception_company_not_substring:
  "\<not> is_exception_company hungarian [[]] (Some []) \<and>
   ([] :: pystr) = [] @ [] @ [] \<and>
   \<not> is_exception_company greek [[931, 927, 931]] (Some [931, 927, 931, 913]) \<and>
   [931, 927, 931, 913] = [] @ [931, 927, 931] @ [913 :: nat] \<and>
   py_lower greek [931, 927, 931] = [963, 959, 962] \<and>
   py_lower greek [931, 927, 931, 913] = [963, 959, 963, 945]"
  using empty_keyword sigma_keyword sigma_lower by simp

subsection \<open>Field extraction on the reference bodies\<close>

lemmas extraction_defs = extract_company_def extract_invoice_def group_strip_def str_def
  re_search_def match_here_def RE_GREET_def RE_INVOICE_def cats_def lit_def ic_def ic_class_def
  is_space_def is_digit_def py_strip_def strip_where_def

lemma extract_company_reference:
  "extract_company (str ''Tisztelt J'' @ [233] @ str ''gszil'' @ [225] @ str ''nk Kft!'' @ [10] @
      str ''Ez'' @ [250] @ str ''ton k'' @ [252] @ str ''ldj'' @ [252] @
      str ''k a 562003117859 sz'' @ [225] @ str ''m'' @ [250] @ str '' elektronikus sz'' @ [225] @
      str ''ml'' @ [225] @ str ''j'' @ [225] @ str ''t...'')
   = Inr (Some (str ''J'' @ [233] @ str ''gszil'' @ [225] @ str ''nk Kft''))"
  by (simp add: extraction_defs)

lemma extract_invoice_reference:
  "extract_invoice U (str ''Tisztelt J'' @ [233] @ str ''gszil'' @ [225] @ str ''nk Kft!'' @ [10] @
      str ''Ez'' @ [250] @ str ''ton k'' @ [252] @ str ''ldj'' @ [252] @
      str ''k a 562003117859 sz'' @ [225] @ str ''m'' @ [250] @ str '' elektronikus sz'' @ [225] @
      str ''ml'' @ [225] @ str ''j'' @ [225] @ str ''t...'')
   = Inr (Some (str ''562003117859''))"
  by (simp add: extraction_defs)

lemma extract_company_blanks:
  "extract_company (str ''Tisztelt Valami Zrt   !'' @ [10] @ str ''K'' @ [252] @ str ''ldj'' @ [252] @
      str ''k a 123456789 sz'' @ [225] @ str ''m'' @ [250] @ str '' elektronikus sz'' @ [225] @
      str ''ml'' @ [225] @ str ''j'' @ [225] @ str ''t'')
   = Inr (Some (str ''Valami Zrt''))"
  by (simp add: extraction_defs)

lemma extract_invoice_blanks:
  "extract_invoice U (str ''Tisztelt Valami Zrt   !'' @ [10] @ str ''K'' @ [252] @ str ''ldj'' @ [252] @
      str ''k a 123456789 sz'' @ [225] @ str ''m'' @ [250] @ str '' elektronikus sz'' @ [225] @
      str ''ml'' @ [225] @ str ''j'' @ [225] @ str ''t'')
   = Inr (Some (str ''123456789''))"
  by (simp add: extraction_defs)

text \<open>
  C5: on the body \<open>Tisztelt Jegszilank Kft!\<close>, new line,
  \<open>Ezuton kuldjuk a 562003117859 szamu elektronikus szamlajat...\<close> (with the accents of
  the source: 233 is e-acute, 225 a-acute, 250 u-acute, 252 u-diaeresis, 10 the new
  line) the company is \<open>Jegszilank Kft\<close> and the invoice number \<open>562003117859\<close>; on the
  body with three spaces before the exclamation mark the company is \<open>Valami Zrt\<close> and
  the invoice number \<open>123456789\<close>.
\<close>

theorem extraction_reference_inputs:
  "extract_company (str ''Tisztelt J'' @ [233] @ str ''gszil'' @ [225] @ str ''nk Kft!'' @ [10] @
      str ''Ez'' @ [250] @ str ''ton k'' @ [252] @ str ''ldj'' @ [252] @
      str ''k a 562003117859 sz'' @ [225] @ str ''m'' @ [250] @ str '' elektronikus sz'' @ [225] @
      str ''ml'' @ [225] @ str ''j'' @ [225] @ str ''t...'')
     = Inr (Some (str ''J'' @ [233] @ str ''gszil'' @ [225] @ str ''nk Kft'')) \<and>
   extract_invoice U (str ''Tisztelt J'' @ [233] @ str ''gszil'' @ [225] @ str ''nk Kft!'' @ [10] @
      str ''Ez'' @ [250] @ str ''ton k'' @ [252] @ str ''ldj'' @ [252] @
      str ''k a 562003117859 sz'' @ [225] @ str ''m'' @ [250] @ str '' elektronikus sz'' @ [225] @
      str ''ml'' @ [225] @ str ''j'' @ [225] @ str ''t...'')
     = Inr (Some (str ''562003117859'')) \<and>
   extract_company (str ''Tisztelt Valami Zrt   !'' @ [10] @ str ''K'' @ [252] @ str ''ldj'' @ [252] @
      str ''k a 123456789 sz'' @ [225] @ str ''m'' @ [250] @ str '' elektronikus sz'' @ [225] @
      str ''ml'' @ [225] @ str ''j'' @ [225] @ str ''t'')
     = Inr (Some (str ''Valami Zrt'')) \<and>
   extract_invoice U (str ''Tisztelt Valami Zrt   !'' @ [10] @ str ''K'' @ [252] @ str ''ldj'' @ [252] @
      str ''k a 123456789 sz'' @ [225] @ str ''m'' @ [250] @ str '' elektronikus sz'' @ [225] @
      str ''ml'' @ [225] @ str ''j'' @ [225] @ str ''t'')
     = Inr (Some (str ''123456789''))"
  using extract_company_reference extract_invoice_reference [of U] extract_company_blanks
    extract_invoice_blanks [of U]
  by blast

subsection \<open>What a successful match passes to the rest of the pattern\<close>

lemma rep_greedy_cont:
  "rep_greedy p lo hi prev s k = Some res \<Longrightarrow>
   \<exists>prev' s'. k prev' s' = Some res \<and> length s' \<le> length s"
proof (induction s arbitrary: lo hi prev)
  case Nil
  then show ?case by (auto split: if_splits)
next
  case (Cons c cs)
  consider (here) "k prev (c # cs) = Some res"
    | (later) lo' hi' where "rep_greedy p lo' hi' (Some c) cs k = Some res"
    using Cons.prems by (auto split: if_splits option.splits)
  then show ?case
  proof cases
    case here
    then show ?thesis by blast
  next
    case later
    from Cons.IH [OF later] obtain prev' s' where "k prev' s' = Some res" "length s' \<le> length cs"
      by blast
    then show ?thesis by (intro exI [of _ prev'] exI [of _ s']) simp
  qed
qed

lemma rep_lazy_cont:
  "rep_lazy p lo hi prev s k = Some res \<Longrightarrow>
   \<exists>prev' s'. k prev' s' = Some res \<and> length s' \<le> length s"
proof (induction s arbitrary: lo hi prev)
  case Nil
  then show ?case by (auto split: if_splits)
next
  case (Cons c cs)
  consider (here) "k prev (c # cs) = Some res"
    | (later) lo' hi' where "rep_lazy p lo' hi' (Some c) cs k = Some res"
    using Cons.prems by (auto split: if_splits option.splits)
  then show ?case
  proof cases
    case here
    then show ?thesis by blast
  next
    case later
    from Cons.IH [OF later] obtain prev' s' where "k prev' s' = Some res" "length s' \<le> length cs"
      by blast
    then show ?thesis by (intro exI [of _ prev'] exI [of _ s']) simp
  qed
qed

lemma rmatch_cont:
  "rmatch r prev s g k = Some res \<Longrightarrow>
   \<exists>prev' s' g'. k prev' s' g' = Some res \<and> length s' \<le> length s"
proof (induction r arbitrary: prev s g k)
  case Eps
  then show ?case by auto
next
  case (Cls p)
  then obtain c cs where "s = c # cs" "k (Some c) cs g = Some res"
    by (auto split: list.splits if_splits)
  then show ?case by (intro exI [of _ "Some c"] exI [of _ cs] exI [of _ g]) simp
next
  case (Cat a b)
  from Cat.prems have "rmatch a prev s g (\<lambda>prev' s' g'. rmatch b prev' s' g' k) = Some res" by simp
  from Cat.IH(1) [OF this] obtain p1 s1 g1 where
    1: "rmatch b p1 s1 g1 k = Some res" "length s1 \<le> length s" by blast
  from Cat.IH(2) [OF 1(1)] obtain p2 s2 g2 where
    2: "k p2 s2 g2 = Some res" "length s2 \<le> length s1" by blast
  with 1 show ?case by (intro exI [of _ p2] exI [of _ s2] exI [of _ g2]) simp
next
  case (Opt a)
  then consider "rmatch a prev s g k = Some res" | "k prev s g = Some res"
    by (auto split: option.splits)
  then show ?case using Opt.IH by cases blast+
next
  case (Rep p lo hi)
  then have "rep_greedy p lo hi prev s (\<lambda>prev' s'. k prev' s' g) = Some res" by simp
  from rep_greedy_cont [OF this] show ?case by blast
next
  case (RepLazy p lo hi)
  then have "rep_lazy p lo hi prev s (\<lambda>prev' s'. k prev' s' g) = Some res" by simp
  from rep_lazy_cont [OF this] show ?case by blast
next
  case (Ahead a)
  then obtain g' where "k prev s g' = Some res" by (auto split: option.splits)
  then show ?case by blast
next
  case (Bound w)
  then have "k prev s g = Some res" by (auto split: if_splits)
  then show ?case by blast
next
  case (Grp a)
  from Grp.prems have
    "rmatch a prev s g (\<lambda>prev' s' g'. k prev' s' (Some (take (length s - length s') s))) = Some res"
    by simp
  from Grp.IH [OF this] show ?case by blast
qed

lemma rmatch_two_literals:
  assumes "rmatch (Cat (lit [a, b]) r) prev s g k = Some res"
  shows "\<exists>x y s'' prev' s' g'. s = x # y # s'' \<and> x \<in> set (ic_class a) \<and> y \<in> set (ic_class b) \<and>
           length s' \<le> length s'' \<and> k prev' s' g' = Some res"
proof -
  from assms obtain x y s'' where s: "s = x # y # s''" "x \<in> set (ic_class a)" "y \<in> set (ic_class b)"
    and r: "rmatch r (Some y) s'' g k = Some res"
    by (auto simp: lit_def ic_def split: list.splits if_splits)
  from rmatch_cont [OF r] obtain prev' s' g' where "k prev' s' g' = Some res" "length s' \<le> length s''"
    by blast
  with s show ?thesis by blast
qed

lemma group_two_literals:
  assumes "match_here (Cat l (Grp (Cat (lit [a, b]) r))) prev s = Some m"
  shows "\<exists>x y rest. snd m = Some (x # y # rest) \<and> x \<in> set (ic_class a) \<and> y \<in> set (ic_class b)"
proof -
  from assms obtain res where
    res: "rmatch (Cat l (Grp (Cat (lit [a, b]) r))) prev s None (\<lambda>prev' s' g'. Some (g', s')) = Some res"
    and m: "snd m = fst res"
    by (auto simp: match_here_def split: option.splits)
  let ?body = "Cat (lit [a, b]) r"
  from res have "rmatch l prev s None
      (\<lambda>p1 s1 g1. rmatch ?body p1 s1 g1
         (\<lambda>p2 s2 g2. Some (Some (take (length s1 - length s2) s1), s2))) = Some res"
    by simp
  from rmatch_cont [OF this] obtain p1 s1 g1 where
    "rmatch ?body p1 s1 g1 (\<lambda>p2 s2 g2. Some (Some (take (length s1 - length s2) s1), s2)) = Some res"
    by blast
  from rmatch_two_literals [OF this] obtain x y s'' s2 where
    s1: "s1 = x # y # s''" "x \<in> set (ic_class a)" "y \<in> set (ic_class b)" "length s2 \<le> length s''"
    and "Some (Some (take (length s1 - length s2) s1), s2) = Some res"
    by blast
  then have "fst res = Some (take (length s1 - length s2) s1)" by auto
  moreover have "take (length s1 - length s2) s1 = x # y # take (length s'' - length s2) s''"
    using s1 by (simp add: Suc_diff_le)
  ultimately show ?thesis using m s1 by simp
qed

lemma bounded_two_literals:
  assumes "match_here (Cat (Bound w) (Cat (Cat (lit [a, b]) r) (Bound w'))) prev s = Some m"
  shows "\<exists>x y rest. fst m = x # y # rest \<and> x \<in> set (ic_class a) \<and> y \<in> set (ic_class b)"
proof -
  from assms obtain res where
    res: "rmatch (Cat (Bound w) (Cat (Cat (lit [a, b]) r) (Bound w'))) prev s None
            (\<lambda>prev' s' g'. Some (g', s')) = Some res"
    and m: "fst m = take (length s - length (snd res)) s"
    by (auto simp: match_here_def split: option.splits)
  from res have "rmatch (Cat (lit [a, b]) r) prev s None
       (\<lambda>p1 s1 g1. rmatch (Bound w') p1 s1 g1 (\<lambda>prev' s' g'. Some (g', s'))) = Some res"
    by (simp split: if_splits)
  from rmatch_two_literals [OF this] obtain x y s'' p1 s1 g1 where
    s: "s = x # y # s''" "x \<in> set (ic_class a)" "y \<in> set (ic_class b)" "length s1 \<le> length s''"
    and "rmatch (Bound w') p1 s1 g1 (\<lambda>prev' s' g'. Some (g', s')) = Some res"
    by blast
  then have "snd res = s1" by (auto split: if_splits)
  with s m have "fst m = x # y # take (length s'' - length s1) s''"
    by (simp add: Suc_diff_le)
  with s show ?thesis by simp
qed

lemma findall_from_head:
  "findall_from r skip prev s = m # ms \<Longrightarrow>
   \<exists>prev' s' mm. match_here r prev' s' = Some mm \<and> m = item r mm"
proof (induction s arbitrary: skip prev)
  case Nil
  then show ?case by (auto split: option.splits)
next
  case (Cons c cs)
  show ?case
  proof (cases "0 < skip")
    case True
    with Cons.prems have "findall_from r (skip - 1) (Some c) cs = m # ms" by simp
    from Cons.IH [OF this] show ?thesis .
  next
    case False
    show ?thesis
    proof (cases "match_here r prev (c # cs)")
      case None
      with False Cons.prems have "findall_from r 0 (Some c) cs = m # ms" by simp
      from Cons.IH [OF this] show ?thesis .
    next
      case (Some mm)
      with False Cons.prems have "m = item r mm" by simp
      with Some show ?thesis by blast
    qed
  qed
qed

subsection \<open>The prefix of a normalized match\<close>

lemma rstrip_Cons: "\<not> q a \<Longrightarrow> rev (dropWhile q (rev (a # s))) = a # rev (dropWhile q (rev s))"
  by (simp add: dropWhile_append)

lemma normalize_pod_keeps_two:
  assumes "upper_cp U x = [a]" "upper_cp U y = [b]"
    and "\<not> is_space a" "\<not> is_space b" "\<not> is_hyphen a" "\<not> is_hyphen b"
  shows "\<exists>z. normalize_pod U (x # y # rest) = a # b # z"
proof -
  let ?f = "filter (\<lambda>c. \<not> is_space c) (py_upper U rest)"
  have "filter (\<lambda>c. \<not> is_space c) (py_upper U (x # y # rest)) = a # b # ?f"
    using assms by (simp add: py_upper_def)
  then have "normalize_pod U (x # y # rest) =
      strip_where is_hyphen (a # b # replace_runs is_hyphen 2 [45] ?f)"
    using assms by (simp add: normalize_pod_runs strip_hyphens_def)
  moreover have "strip_where is_hyphen (a # b # replace_runs is_hyphen 2 [45] ?f) =
      a # rev (dropWhile is_hyphen (rev (b # replace_runs is_hyphen 2 [45] ?f)))"
    by (rule strip_where_Cons) fact
  moreover have "rev (dropWhile is_hyphen (rev (b # replace_runs is_hyphen 2 [45] ?f))) =
      b # rev (dropWhile is_hyphen (rev (replace_runs is_hyphen 2 [45] ?f)))"
    by (rule rstrip_Cons) fact
  ultimately show ?thesis by simp
qed

lemma normalize_pod_HU:
  assumes "x \<in> set (ic_class 72)" "y \<in> set (ic_class 85)"
  shows "startswith (normalize_pod U (x # y # rest)) (str ''HU'')"
proof -
  from assms have "upper_cp U x = [72]" "upper_cp U y = [85]"
    by (auto simp: ic_class_def upper_cp_def)
  from normalize_pod_keeps_two [OF this, of rest] show ?thesis
    by (auto simp: is_space_def is_hyphen_def startswith_def str_def)
qed

lemma normalize_pod_39:
  assumes "x \<in> set (ic_class 51)" "y \<in> set (ic_class 57)"
  shows "startswith (normalize_pod U (x # y # rest)) (str ''39'')"
proof -
  from assms have "upper_cp U x = [51]" "upper_cp U y = [57]"
    by (auto simp: ic_class_def upper_cp_def)
  from normalize_pod_keeps_two [OF this, of rest] show ?thesis
    by (auto simp: is_space_def is_hyphen_def startswith_def str_def)
qed

lemma ngroups_LABEL: "ngroups LABEL = 0"
  by (simp add: LABEL_def cats_def lit_def str_def)

lemma ngroups_bodies: "ngroups (HU_BODY U) = 0" "ngroups (GAS_BODY U) = 0"
  by (simp_all add: HU_BODY_def GAS_BODY_def has_digit_def has_hyphen_def cats_def lit_def str_def)

lemma lit_HU: "lit (str ''HU'') = lit [72, 85]" and lit_39: "lit (str ''39'') = lit [51, 57]"
  by (simp_all add: str_def)

lemma after_label_HU_item:
  assumes "findall (AFTER_LABEL_HU U) text = m # ms"
  shows "startswith (normalize_pod U m) (str ''HU'')"
proof -
  from findall_from_head [OF assms [unfolded findall_def]] obtain prev' s' mm where
    mm: "match_here (AFTER_LABEL_HU U) prev' s' = Some mm" and m: "m = item (AFTER_LABEL_HU U) mm"
    by blast
  from mm group_two_literals [of LABEL 72 85 _ prev' s' mm] obtain x y rest where
    "snd mm = Some (x # y # rest)" "x \<in> set (ic_class 72)" "y \<in> set (ic_class 85)"
    unfolding AFTER_LABEL_HU_def HU_BODY_def lit_HU by blast
  moreover from this m have "m = x # y # rest"
    by (simp add: item_def AFTER_LABEL_HU_def ngroups_LABEL)
  ultimately show ?thesis using normalize_pod_HU by simp
qed

lemma after_label_39_item:
  assumes "findall (AFTER_LABEL_39 U) text = m # ms"
  shows "startswith (normalize_pod U m) (str ''39'')"
proof -
  from findall_from_head [OF assms [unfolded findall_def]] obtain prev' s' mm where
    mm: "match_here (AFTER_LABEL_39 U) prev' s' = Some mm" and m: "m = item (AFTER_LABEL_39 U) mm"
    by blast
  from mm group_two_literals [of LABEL 51 57 _ prev' s' mm] obtain x y rest where
    "snd mm = Some (x # y # rest)" "x \<in> set (ic_class 51)" "y \<in> set (ic_class 57)"
    unfolding AFTER_LABEL_39_def GAS_BODY_def lit_39 by blast
  moreover from this m have "m = x # y # rest"
    by (simp add: item_def AFTER_LABEL_39_def ngroups_LABEL)
  ultimately show ?thesis using normalize_pod_39 by simp
qed

lemma anywhere_HU_item:
  assumes "findall (ANYWHERE_HU U) text = m # ms"
  shows "startswith (normalize_pod U m) (str ''HU'')"
proof -
  from findall_from_head [OF assms [unfolded findall_def]] obtain prev' s' mm where
    mm: "match_here (ANYWHERE_HU U) prev' s' = Some mm" and m: "m = item (ANYWHERE_HU U) mm"
    by blast
  from mm bounded_two_literals [of "is_word U" 72 85 _ "is_word U" prev' s' mm] obtain x y rest where
    "fst mm = x # y # rest" "x \<in> set (ic_class 72)" "y \<in> set (ic_class 85)"
    unfolding ANYWHERE_HU_def HU_BODY_def lit_HU by blast
  moreover from this m have "m = x # y # rest"
    by (simp add: item_def ANYWHERE_HU_def ngroups_bodies)
  ultimately show ?thesis using normalize_pod_HU by simp
qed

lemma anywhere_39_item:
  assumes "findall (ANYWHERE_39 U) text = m # ms"
  shows "startswith (normalize_pod U m) (str ''39'')"
proof -
  from findall_from_head [OF assms [unfolded findall_def]] obtain prev' s' mm where
    mm: "match_here (ANYWHERE_39 U) prev' s' = Some mm" and m: "m = item (ANYWHERE_39 U) mm"
    by blast
  from mm bounded_two_literals [of "is_word U" 51 57 _ "is_word U" prev' s' mm] obtain x y rest where
    "fst mm = x # y # rest" "x \<in> set (ic_class 51)" "y \<in> set (ic_class 57)"
    unfolding ANYWHERE_39_def GAS_BODY_def lit_39 by blast
  moreover from this m have "m = x # y # rest"
    by (simp add: item_def ANYWHERE_39_def ngroups_bodies)
  ultimately show ?thesis using normalize_pod_39 by simp
qed

lemma pattern_item_prefix:
  assumes "pat \<in> set (PATTERNS U)" "findall pat text = m # ms"
  shows "startswith (normalize_pod U m) (str ''HU'') \<or> startswith (normalize_pod U m) (str ''39'')"
  using assms after_label_HU_item after_label_39_item anywhere_HU_item anywhere_39_item
  by (auto simp: PATTERNS_def)

lemma try_patterns_first_match:
  assumes "\<And>pat m ms. pat \<in> set pats \<Longrightarrow> findall pat text = m # ms \<Longrightarrow>
             startswith (normalize_pod U m) (str ''HU'') \<or> startswith (normalize_pod U m) (str ''39'')"
  shows "try_patterns U pats text = map_option (normalize_pod U) (first_match pats text)"
  using assms
proof (induction pats)
  case Nil
  then show ?case by simp
next
  case (Cons pat pats)
  show ?case
  proof (cases "findall pat text")
    case Nil
    have "try_patterns U pats text = map_option (normalize_pod U) (first_match pats text)"
      by (rule Cons.IH) (rule Cons.prems, auto)
    with Nil show ?thesis by simp
  next
    case (Cons m ms)
    with Cons.prems [of pat m ms] show ?thesis by (simp add: Let_def)
  qed
qed

lemma findall_empty_text: "pat \<in> set (PATTERNS U) \<Longrightarrow> findall pat [] = []"
  by (auto simp: PATTERNS_def AFTER_LABEL_HU_def AFTER_LABEL_39_def ANYWHERE_HU_def ANYWHERE_39_def
      LABEL_def cats_def lit_def str_def findall_def match_here_def at_boundary_def)

lemma first_match_empty_text: "(\<And>pat. pat \<in> set pats \<Longrightarrow> findall pat [] = []) \<Longrightarrow> first_match pats [] = None"
  by (induction pats) auto

lemma find_pod_in_text_first_match:
  "find_pod_in_text U text = map_option (normalize_pod U) (first_match (PATTERNS U) text)"
proof (cases "text = []")
  case True
  then show ?thesis
    using first_match_empty_text [of "PATTERNS U"] findall_empty_text [of _ U]
    by (simp add: find_pod_in_text_def)
next
  case False
  then show ?thesis
    using try_patterns_first_match [of "PATTERNS U" "text" U] pattern_item_prefix [of _ U "text"]
    by (simp add: find_pod_in_text_def)
qed

lemma startswith_nonempty: "startswith s (a # p) \<Longrightarrow> s \<noteq> []"
  by (auto simp: startswith_def)

lemma find_pod_in_text_truthy: "find_pod_in_text U text = Some pod \<Longrightarrow> pod \<noteq> []"
proof -
  assume a: "find_pod_in_text U text = Some pod"
  then obtain m where m: "first_match (PATTERNS U) text = Some m" "pod = normalize_pod U m"
    by (auto simp: find_pod_in_text_first_match)
  have "\<exists>pat ms. pat \<in> set pats \<and> findall pat text = m # ms" if "first_match pats text = Some m" for pats
    using that by (induction pats) (auto split: list.splits)
  with m obtain pat ms where "pat \<in> set (PATTERNS U)" "findall pat text = m # ms" by blast
  from pattern_item_prefix [OF this] m show ?thesis
    by (auto simp: str_def dest: startswith_nonempty)
qed

subsection \<open>The locator on pages\<close>

lemmas locator_defs = findall_def match_here_def AFTER_LABEL_HU_def AFTER_LABEL_39_def
  ANYWHERE_HU_def ANYWHERE_39_def LABEL_def HU_BODY_def GAS_BODY_def has_digit_def has_hyphen_def
  cats_def lit_def str_def ic_def ic_class_def is_space_def is_digit_def is_word_def IDCH_def
  ALNUM_def at_boundary_def item_def

lemma page_two_first_match:
  "2 \<le> length doc \<Longrightarrow>
   page_two U doc = map_option (normalize_pod U) (first_match (PATTERNS U) (doc ! 1))"
  by (simp add: page_two_def find_pod_in_text_first_match)

lemma extract_pod_from_pdf_cases:
  "extract_pod_from_pdf U doc =
     (case page_two U doc of Some pod \<Rightarrow> Some pod | None \<Rightarrow> scan_pages U doc)"
proof (cases "page_two U doc")
  case None
  then show ?thesis by (simp add: extract_pod_from_pdf_def)
next
  case (Some pod)
  then have "find_pod_in_text U (doc ! 1) = Some pod"
    by (auto simp: page_two_def split: if_splits)
  then have "pod \<noteq> []" by (rule find_pod_in_text_truthy)
  with Some show ?thesis by (simp add: extract_pod_from_pdf_def)
qed

lemma label_page_HU:
  "findall (AFTER_LABEL_HU hungarian)
     (str ''M'' @ [233] @ str ''r'' @ [337] @ str ''pont azonos'' @ [237] @ str ''t'' @ [243] @
      str '': HU-1234-5678-AB'') = [str ''HU-1234-5678-AB'']"
  by (simp add: locator_defs)

lemma token_page_patterns:
  "findall (AFTER_LABEL_HU hungarian) (str ''ref 3912345678 end'') = [] \<and>
   findall (AFTER_LABEL_39 hungarian) (str ''ref 3912345678 end'') = [] \<and>
   findall (ANYWHERE_HU hungarian) (str ''ref 3912345678 end'') = [] \<and>
   findall (ANYWHERE_39 hungarian) (str ''ref 3912345678 end'') = [str ''3912345678'']"
  by (simp add: locator_defs)

lemma normalize_token: "normalize_pod hungarian (str ''3912345678'') = str ''3912345678''"
  by (simp add: normalize_pod_runs str_def py_upper_def upper_cp_def is_space_def is_hyphen_def
      strip_hyphens_def strip_where_def)

lemma normalize_label_value: "normalize_pod hungarian (str ''HU-1234-5678-AB'') = str ''HU-1234-5678-AB''"
  by (simp add: normalize_pod_runs str_def py_upper_def upper_cp_def is_space_def is_hyphen_def
      strip_hyphens_def strip_where_def)

text \<open>
  C9: whenever a pattern of \<open>PATTERNS\<close> matches in a text, its first match begins with
  \<open>HU\<close> or \<open>39\<close> after normalization, so the prefix check of \<open>_find_pod_in_text\<close> always
  passes: the function returns the normalized first match of the earliest pattern that
  matches, and no pattern is passed over for a malformed capture.
\<close>

theorem prefix_check_never_rejects:
  "(pat \<in> set (PATTERNS U) \<longrightarrow> findall pat text = m # ms \<longrightarrow>
      startswith (normalize_pod U m) (str ''HU'') \<or> startswith (normalize_pod U m) (str ''39'')) \<and>
   find_pod_in_text U text = map_option (normalize_pod U) (first_match (PATTERNS U) text)"
  using pattern_item_prefix [of pat U "text" m ms] find_pod_in_text_first_match [of U "text"]
  by blast

theorem prefix_check_never_rejects_witness:
  "ANYWHERE_39 hungarian \<in> set (PATTERNS hungarian) \<and>
   findall (ANYWHERE_39 hungarian) (str ''ref 3912345678 end'') = [str ''3912345678''] \<and>
   (startswith (normalize_pod hungarian (str ''3912345678'')) (str ''HU'') \<or>
    startswith (normalize_pod hungarian (str ''3912345678'')) (str ''39'')) \<and>
   find_pod_in_text hungarian (str ''ref 3912345678 end'') = Some (str ''3912345678'')"
proof -
  have mem: "ANYWHERE_39 hungarian \<in> set (PATTERNS hungarian)" by (simp add: PATTERNS_def)
  have fa: "findall (ANYWHERE_39 hungarian) (str ''ref 3912345678 end'') = [str ''3912345678'']"
    using token_page_patterns by blast
  have fm: "first_match (PATTERNS hungarian) (str ''ref 3912345678 end'') = Some (str ''3912345678'')"
    using token_page_patterns by (simp add: PATTERNS_def)
  from prefix_check_never_rejects
    [of "ANYWHERE_39 hungarian" hungarian "str ''ref 3912345678 end''" "str ''3912345678''" "[]"]
    mem fa fm show ?thesis
    by (simp add: normalize_token)
qed

text \<open>
  C4: in a document of two pages whose second page has a match of the after-label HU
  pattern, the locator returns the normalized first such match, whatever the first page
  holds.
\<close>

theorem page_two_label_match_wins:
  assumes "findall (AFTER_LABEL_HU U) page2 = m # ms"
  shows "extract_pod_from_pdf U [page1, page2] = Some (normalize_pod U m)"
proof -
  have "page_two U [page1, page2] = Some (normalize_pod U m)"
    using assms by (simp add: page_two_first_match PATTERNS_def)
  then show ?thesis by (simp add: extract_pod_from_pdf_cases)
qed

theorem page_two_label_match_wins_witness:
  "find_pod_in_text hungarian (str ''ref 3912345678 end'') = Some (str ''3912345678'') \<and>
   findall (AFTER_LABEL_HU hungarian)
     (str ''M'' @ [233] @ str ''r'' @ [337] @ str ''pont azonos'' @ [237] @ str ''t'' @ [243] @
      str '': HU-1234-5678-AB'') = [str ''HU-1234-5678-AB''] \<and>
   extract_pod_from_pdf hungarian
     [str ''ref 3912345678 end'',
      str ''M'' @ [233] @ str ''r'' @ [337] @ str ''pont azonos'' @ [237] @ str ''t'' @ [243] @
      str '': HU-1234-5678-AB''] = Some (str ''HU-1234-5678-AB'')"
proof -
  have "find_pod_in_text hungarian (str ''ref 3912345678 end'') = Some (str ''3912345678'')"
    using token_page_patterns by (simp add: find_pod_in_text_first_match PATTERNS_def normalize_token)
  with page_two_label_match_wins [OF label_page_HU, of "str ''ref 3912345678 end''"] label_page_HU
  show ?thesis by (simp only: normalize_label_value)
qed

text \<open>
  C1, as the code has it: the search of page 2 runs the four patterns in their order,
  the label-free ones included, and the scan of all pages runs only when that found
  nothing.  So a page 2 with nothing but a label-free token does give the result, in the
  page-2 phase.
\<close>

theorem page_two_runs_all_patterns:
  assumes "2 \<le> length doc"
  shows "page_two U doc =
           map_option (normalize_pod U)
             (first_match [AFTER_LABEL_HU U, AFTER_LABEL_39 U, ANYWHERE_HU U, ANYWHERE_39 U] (doc ! 1)) \<and>
         extract_pod_from_pdf U doc =
           (case page_two U doc of Some pod \<Rightarrow> Some pod | None \<Rightarrow> scan_pages U doc) \<and>
         (findall (AFTER_LABEL_HU U) (doc ! 1) = [] \<and> findall (AFTER_LABEL_39 U) (doc ! 1) = [] \<and>
          findall (ANYWHERE_HU U) (doc ! 1) = m # ms \<longrightarrow>
            extract_pod_from_pdf U doc = Some (normalize_pod U m)) \<and>
         (findall (AFTER_LABEL_HU U) (doc ! 1) = [] \<and> findall (AFTER_LABEL_39 U) (doc ! 1) = [] \<and>
          findall (ANYWHERE_HU U) (doc ! 1) = [] \<and> findall (ANYWHERE_39 U) (doc ! 1) = m # ms \<longrightarrow>
            extract_pod_from_pdf U doc = Some (normalize_pod U m))"
  using page_two_first_match [OF assms, of U] extract_pod_from_pdf_cases [of U doc]
  by (auto simp: PATTERNS_def)

theorem page_two_runs_all_patterns_witness:
  "extract_pod_from_pdf hungarian
     [str ''M'' @ [233] @ str ''r'' @ [337] @ str ''pont azonos'' @ [237] @ str ''t'' @ [243] @
      str '': HU-1234-5678-AB'',
      str ''ref 3912345678 end''] = Some (str ''3912345678'')"
proof -
  let ?doc = "[str ''M'' @ [233] @ str ''r'' @ [337] @ str ''pont azonos'' @ [237] @ str ''t'' @ [243] @
      str '': HU-1234-5678-AB'', str ''ref 3912345678 end'']"
  have two: "2 \<le> length ?doc" by simp
  have snd: "?doc ! 1 = str ''ref 3912345678 end''" by simp
  from page_two_runs_all_patterns [OF two, of hungarian "str ''3912345678''" "[]"]
  have "findall (AFTER_LABEL_HU hungarian) (?doc ! 1) = [] \<and>
        findall (AFTER_LABEL_39 hungarian) (?doc ! 1) = [] \<and>
        findall (ANYWHERE_HU hungarian) (?doc ! 1) = [] \<and>
        findall (ANYWHERE_39 hungarian) (?doc ! 1) = [str ''3912345678''] \<longrightarrow>
        extract_pod_from_pdf hungarian ?doc = Some (normalize_pod hungarian (str ''3912345678''))"
    by blast
  with token_page_patterns show ?thesis
    unfolding snd normalize_token by blast
qed

text \<open>
  C1 as stated fails: page 1 carries a labelled HU value and page 2 only the
  label-free token \<open>3912345678\<close>; no after-label pattern matches on page 2, and yet the
  page-2 phase returns the token, where the locator worded by the specification returns
  the value of page 1.
\<close>

theorem page_two_label_free_token:
  "findall (AFTER_LABEL_HU hungarian) (str ''ref 3912345678 end'') = [] \<and>
   findall (AFTER_LABEL_39 hungarian) (str ''ref 3912345678 end'') = [] \<and>
   page_two hungarian
     [str ''M'' @ [233] @ str ''r'' @ [337] @ str ''pont azonos'' @ [237] @ str ''t'' @ [243] @
      str '': HU-1234-5678-AB'',
      str ''ref 3912345678 end''] = Some (str ''3912345678'') \<and>
   extract_pod_from_pdf hungarian
     [str ''M'' @ [233] @ str ''r'' @ [337] @ str ''pont azonos'' @ [237] @ str ''t'' @ [243] @
      str '': HU-1234-5678-AB'',
      str ''ref 3912345678 end''] = Some (str ''3912345678'') \<and>
   spec_locate hungarian
     [str ''M'' @ [233] @ str ''r'' @ [337] @ str ''pont azonos'' @ [237] @ str ''t'' @ [243] @
      str '': HU-1234-5678-AB'',
      str ''ref 3912345678 end''] = Some (str ''HU-1234-5678-AB'')"
proof -
  let ?p1 = "str ''M'' @ [233] @ str ''r'' @ [337] @ str ''pont azonos'' @ [237] @ str ''t'' @ [243] @
      str '': HU-1234-5678-AB''"
  let ?p2 = "str ''ref 3912345678 end''"
  have p2: "find_pod_in_text hungarian ?p2 = Some (str ''3912345678'')"
    using token_page_patterns by (simp add: find_pod_in_text_first_match PATTERNS_def normalize_token)
  have p1: "find_pod_in_text hungarian ?p1 = Some (str ''HU-1234-5678-AB'')"
    using label_page_HU by (simp add: find_pod_in_text_first_match PATTERNS_def normalize_label_value)
  have ne: "?p2 \<noteq> []" "str ''3912345678'' \<noteq> []" "str ''HU-1234-5678-AB'' \<noteq> []"
    by (simp_all add: str_def)
  have pt: "page_two hungarian [?p1, ?p2] = Some (str ''3912345678'')"
    using p2 by (simp add: page_two_def)
  have ex: "extract_pod_from_pdf hungarian [?p1, ?p2] = Some (str ''3912345678'')"
    using pt ne by (simp add: extract_pod_from_pdf_def)
  have "try_patterns hungarian [AFTER_LABEL_HU hungarian, AFTER_LABEL_39 hungarian] ?p2 = None"
    using token_page_patterns by simp
  then have sp: "spec_locate hungarian [?p1, ?p2] = Some (str ''HU-1234-5678-AB'')"
    using p1 ne by (simp add: spec_locate_def)
  from token_page_patterns pt ex sp show ?thesis by blast
qed

subsection \<open>The numbered candidates of the collision loop\<close>

lemma str_int_decode: "foldl (\<lambda>a d. 10 * a + (d - 48)) 0 (str_int n) = n"
proof (induction n rule: str_int.induct)
  case (1 n)
  show ?case
  proof (cases "n < 10")
    case True
    then show ?thesis by (subst str_int.simps) simp
  next
    case False
    with 1 show ?thesis by (subst str_int.simps) simp
  qed
qed

lemma str_int_inj: "str_int n = str_int m \<Longrightarrow> n = m"
  by (metis str_int_decode)

lemma numbered_inj: "numbered p n = numbered p m \<Longrightarrow> n = m"
  by (auto simp: numbered_def split: prod.splits dest: str_int_inj)

lemma free_candidate:
  assumes "finite existing"
  shows "\<exists>n\<ge>c. numbered p n \<notin> existing"
proof (rule ccontr)
  assume "\<not> (\<exists>n\<ge>c. numbered p n \<notin> existing)"
  then have "numbered p ` {c..} \<subseteq> existing" by auto
  with assms have "finite (numbered p ` {c..})" by (rule rev_finite_subset)
  moreover have "inj_on (numbered p) {c..}" by (auto simp: inj_on_def dest: numbered_inj)
  ultimately have "finite {c..}" by (rule finite_imageD)
  then show False by (simp add: infinite_Ici)
qed

lemma dedup_loop_free: "fp \<notin> existing \<Longrightarrow> dedup_loop existing p fp c = Some fp"
  by (subst dedup_loop.simps) simp

lemma dedup_loop_reaches:
  assumes "numbered p n \<notin> existing" "c \<le> n" "\<forall>i. c \<le> i \<and> i < n \<longrightarrow> numbered p i \<in> existing"
    and "fp \<in> existing"
  shows "dedup_loop existing p fp c = Some (numbered p n)"
  using assms
proof (induction "n - c" arbitrary: c fp)
  case 0
  then have "c = n" by simp
  with 0 show ?case
    by (subst dedup_loop.simps) (simp add: dedup_loop_free)
next
  case (Suc d)
  then have "c < n" by simp
  with Suc.prems have in_c: "numbered p c \<in> existing" by simp
  have "dedup_loop existing p (numbered p c) (c + 1) = Some (numbered p n)"
  proof (rule Suc.hyps(1))
    show "d = n - (c + 1)" using Suc.hyps(2) by simp
    show "numbered p n \<notin> existing" by fact
    show "c + 1 \<le> n" using \<open>c < n\<close> by simp
    show "\<forall>i. c + 1 \<le> i \<and> i < n \<longrightarrow> numbered p i \<in> existing" using Suc.prems(3) by simp
    show "numbered p c \<in> existing" by fact
  qed
  with Suc.prems(4) show ?case by (subst dedup_loop.simps) simp
qed

lemma final_path_result:
  assumes "finite existing"
  shows "\<exists>r. final_path existing p = Some r \<and> r \<notin> existing \<and> (p \<notin> existing \<longrightarrow> r = p) \<and>
           (p \<in> existing \<longrightarrow> (\<exists>n\<ge>1. r = numbered p n \<and> (\<forall>i. 1 \<le> i \<and> i < n \<longrightarrow> numbered p i \<in> existing)))"
proof (cases "p \<in> existing")
  case False
  then show ?thesis by (simp add: final_path_def dedup_loop_free)
next
  case True
  define n where "n = (LEAST n. 1 \<le> n \<and> numbered p n \<notin> existing)"
  from free_candidate [OF assms, of 1 p] have ex: "\<exists>n. 1 \<le> n \<and> numbered p n \<notin> existing" by blast
  then have n: "1 \<le> n \<and> numbered p n \<notin> existing" unfolding n_def by (rule LeastI_ex)
  have least: "numbered p i \<in> existing" if "1 \<le> i" "i < n" for i
    using that not_less_Least [of i "\<lambda>n. 1 \<le> n \<and> numbered p n \<notin> existing"] unfolding n_def by blast
  have "dedup_loop existing p p 1 = Some (numbered p n)"
    using n least True by (intro dedup_loop_reaches) auto
  with n least True show ?thesis by (auto simp: final_path_def)
qed

lemma splitext_pdf:
  assumes "\<not> list_ex is_sep num"
  shows "splitext (pre @ [95] @ num @ [46, 112, 100, 102]) = (pre @ [95] @ num, [46, 112, 100, 102])"
proof -
  define S where "S = [95] @ num @ [46, 112, 100, 102]"
  define w where "w = rev (takeWhile (\<lambda>c. \<not> is_sep c) (rev pre))"
  define q where "q = dropWhile (\<lambda>c. c = 46) w @ [95] @ num"
  have nosep: "\<not> is_sep x" if "x \<in> set (rev S)" for x
  proof -
    have fixed: "\<not> is_sep 95" "\<not> is_sep 46" "\<not> is_sep 112" "\<not> is_sep 100" "\<not> is_sep 102"
      by (simp_all add: is_sep_def)
    from that have "x \<in> set num \<or> x = 95 \<or> x = 46 \<or> x = 112 \<or> x = 100 \<or> x = 102"
      by (auto simp: S_def)
    moreover have "\<not> is_sep y" if "y \<in> set num" for y
      using assms that by (simp add: list_ex_iff)
    ultimately show ?thesis using fixed by blast
  qed
  have "takeWhile (\<lambda>c. \<not> is_sep c) (rev S @ rev pre) = rev S @ takeWhile (\<lambda>c. \<not> is_sep c) (rev pre)"
    by (rule takeWhile_append2) (rule nosep)
  then have name: "rev (takeWhile (\<lambda>c. \<not> is_sep c) (rev (pre @ S))) = w @ S"
    by (simp add: w_def)
  have "dropWhile (\<lambda>c. c = 46) (w @ S) = dropWhile (\<lambda>c. c = 46) w @ S"
    by (simp add: dropWhile_append S_def)
  then have body: "dropWhile (\<lambda>c. c = 46) (w @ S) = q @ [46, 112, 100, 102]"
    by (simp add: q_def S_def)
  have ext: "rev (takeWhile (\<lambda>c. c \<noteq> 46) (rev (q @ [46, 112, 100, 102]))) = [112, 100, 102]"
    by simp
  have dot: "46 \<in> set (q @ [46, 112, 100, 102])" by simp
  have root: "take (length (pre @ S) - length [112, 100, 102 :: nat] - 1) (pre @ S) = pre @ [95] @ num"
    by (simp add: S_def)
  have "splitext (pre @ S) = (pre @ [95] @ num, [46, 112, 100, 102])"
    unfolding splitext_def Let_def name body ext using dot root by (simp only: if_True)
  then show ?thesis by (simp add: S_def)
qed

lemma numbered_pdf:
  assumes "\<not> list_ex is_sep num"
  shows "numbered (path_join d (base_filename company pod num)) n =
         path_join d (safe_filename company @ str ''_'' @ pod @ str ''_'' @ num @
                      str '' ('' @ str_int n @ str '').pdf'')"
proof -
  have "path_join d (base_filename company pod num) =
        (d @ [92] @ safe_filename company @ [95] @ pod) @ [95] @ num @ [46, 112, 100, 102]"
    by (simp add: path_join_def base_filename_def str_def)
  then show ?thesis
    unfolding numbered_def using splitext_pdf [OF assms, of "d @ [92] @ safe_filename company @ [95] @ pod"]
    by (simp add: path_join_def str_def)
qed

lemma example_paths:
  "path_join (str ''D:'' @ [92] @ str ''gas'') (base_filename (str ''Valami Zrt'') (str ''3912345678'') (str ''123456789''))
     = str ''D:'' @ [92] @ str ''gas'' @ [92] @ str ''Valami Zrt_3912345678_123456789.pdf''"
  "numbered (str ''D:'' @ [92] @ str ''gas'' @ [92] @ str ''Valami Zrt_3912345678_123456789.pdf'') 1
     = str ''D:'' @ [92] @ str ''gas'' @ [92] @ str ''Valami Zrt_3912345678_123456789 (1).pdf''"
  "numbered (str ''D:'' @ [92] @ str ''gas'' @ [92] @ str ''Valami Zrt_3912345678_123456789.pdf'') 2
     = str ''D:'' @ [92] @ str ''gas'' @ [92] @ str ''Valami Zrt_3912345678_123456789 (2).pdf''"
  by (simp_all add: path_join_def base_filename_def safe_filename_runs py_strip_def strip_where_def
      str_def is_space_def illegal_def numbered_def splitext_def is_sep_def str_int.simps)

text \<open>
  C8: for a finite set of existing paths the loop ends; the path it gives does not
  exist; it is the candidate itself when that does not exist, and otherwise the
  candidate with \<open> (n)\<close> before \<open>.pdf\<close> for the least \<open>n\<close> from 1 on whose path does not
  exist.  The invoice number is a run of digits in the program; that it holds no path
  separator is what places the extension.
\<close>

theorem collision_policy:
  assumes "finite existing" and "\<not> list_ex is_sep num"
  shows "\<exists>r. final_path existing (path_join d (base_filename company pod num)) = Some r \<and>
           r \<notin> existing \<and>
           (path_join d (base_filename company pod num) \<notin> existing \<longrightarrow>
              r = path_join d (base_filename company pod num)) \<and>
           (path_join d (base_filename company pod num) \<in> existing \<longrightarrow>
              (\<exists>n\<ge>1.
                 r = path_join d (safe_filename company @ str ''_'' @ pod @ str ''_'' @ num @
                                  str '' ('' @ str_int n @ str '').pdf'') \<and>
                 (\<forall>i. 1 \<le> i \<and> i < n \<longrightarrow>
                    path_join d (safe_filename company @ str ''_'' @ pod @ str ''_'' @ num @
                                 str '' ('' @ str_int i @ str '').pdf'') \<in> existing)))"
  using final_path_result [OF assms(1), of "path_join d (base_filename company pod num)"]
  by (simp only: numbered_pdf [OF assms(2)])

theorem collision_policy_witness:
  "final_path {str ''D:'' @ [92] @ str ''gas'' @ [92] @ str ''Valami Zrt_3912345678_123456789.pdf''}
     (path_join (str ''D:'' @ [92] @ str ''gas'')
        (base_filename (str ''Valami Zrt'') (str ''3912345678'') (str ''123456789'')))
     = Some (str ''D:'' @ [92] @ str ''gas'' @ [92] @ str ''Valami Zrt_3912345678_123456789 (1).pdf'') \<and>
   final_path {str ''D:'' @ [92] @ str ''gas'' @ [92] @ str ''Valami Zrt_3912345678_123456789.pdf'',
               str ''D:'' @ [92] @ str ''gas'' @ [92] @ str ''Valami Zrt_3912345678_123456789 (1).pdf''}
     (path_join (str ''D:'' @ [92] @ str ''gas'')
        (base_filename (str ''Valami Zrt'') (str ''3912345678'') (str ''123456789'')))
     = Some (str ''D:'' @ [92] @ str ''gas'' @ [92] @ str ''Valami Zrt_3912345678_123456789 (2).pdf'') \<and>
   str ''D:'' @ [92] @ str ''gas'' @ [92] @ str ''Valami Zrt_3912345678_123456789 (2).pdf'' \<notin>
     {str ''D:'' @ [92] @ str ''gas'' @ [92] @ str ''Valami Zrt_3912345678_123456789.pdf'',
      str ''D:'' @ [92] @ str ''gas'' @ [92] @ str ''Valami Zrt_3912345678_123456789 (1).pdf''}"
proof -
  define P where "P = str ''D:'' @ [92] @ str ''gas'' @ [92] @ str ''Valami Zrt_3912345678_123456789.pdf''"
  define P1 where "P1 = str ''D:'' @ [92] @ str ''gas'' @ [92] @ str ''Valami Zrt_3912345678_123456789 (1).pdf''"
  define P2 where "P2 = str ''D:'' @ [92] @ str ''gas'' @ [92] @ str ''Valami Zrt_3912345678_123456789 (2).pdf''"
  have n1: "numbered P 1 = P1" unfolding P_def P1_def by (rule example_paths(2))
  have n2: "numbered P 2 = P2" unfolding P_def P2_def by (rule example_paths(3))
  have ne: "P1 \<noteq> P" "P2 \<noteq> P" "P2 \<noteq> P1" unfolding P_def P1_def P2_def by (simp_all add: str_def)
  have step: "dedup_loop E P fp c = dedup_loop E P (numbered P c) (c + 1)" if "fp \<in> E" for E fp c
    using that by (subst dedup_loop.simps) simp
  have "dedup_loop {P} P P 1 = dedup_loop {P} P P1 2"
    using step [of P "{P}" 1] n1 by (simp add: numeral_2_eq_2)
  then have one: "final_path {P} P = Some P1"
    using dedup_loop_free [of P1 "{P}" P 2] ne by (simp add: final_path_def)
  have "dedup_loop {P, P1} P P 1 = dedup_loop {P, P1} P P1 2"
    using step [of P "{P, P1}" 1] n1 by (simp add: numeral_2_eq_2)
  also have "\<dots> = dedup_loop {P, P1} P P2 3"
    using step [of P1 "{P, P1}" 2] n2 by (simp add: numeral_3_eq_3 numeral_2_eq_2)
  finally have two: "final_path {P, P1} P = Some P2"
    using dedup_loop_free [of P2 "{P, P1}" P 3] ne by (simp add: final_path_def)
  have fin: "finite {P, P1}" by simp
  have nosep: "\<not> list_ex is_sep (str ''123456789'')" by (simp add: str_def is_sep_def)
  from collision_policy [OF fin nosep, of "str ''D:'' @ [92] @ str ''gas''" "str ''Valami Zrt''" "str ''3912345678''"]
  obtain r where "final_path {P, P1} P = Some r" "r \<notin> {P, P1}"
    unfolding example_paths(1) P_def [symmetric] by blast
  with two have "P2 \<notin> {P, P1}" by simp
  with one two show ?thesis
    unfolding example_paths(1) P_def P1_def P2_def by blast
qed

end
